theory Spec2Isabelle
  imports Complex_Main "HOL-Library.Word" "HOL-Library.AList"
begin

unbundle bit_operations_syntax

section \<open>ImageWrangler: shared types (src/lib/types.ts)\<close>

type_synonym byte = "8 word"

text \<open>
  \<^verbatim>\<open>SecurityConstants\<close>: the process-wide limits. \<^verbatim>\<open>MAX_FILE_SIZE\<close> is
  \<^verbatim>\<open>100 * 1024 * 1024\<close>.
\<close>

definition MAX_WIDTH :: nat where "MAX_WIDTH = 15000"
definition MAX_HEIGHT :: nat where "MAX_HEIGHT = 15000"
definition MAX_PIXELS :: nat where "MAX_PIXELS = 50000000"
definition MAX_FILE_SIZE :: nat where "MAX_FILE_SIZE = 100 * 1024 * 1024"

text \<open>
  A browser \<^verbatim>\<open>File\<close>: its content and its declared MIME type (\<^verbatim>\<open>file.type\<close>).
  \<^verbatim>\<open>file.size\<close> is the number of bytes of the content.
\<close>

record File =
  fbytes :: "byte list"
  ftype :: string

definition fsize :: "File \<Rightarrow> nat" where
  "fsize file = length (fbytes file)"

text \<open>
  An \<^verbatim>\<open>ImageBitmap\<close> as far as the code reads it: its dimensions. The bitmap engine
  (\<^verbatim>\<open>createImageBitmap\<close>) is a black box of the browser; it is a parameter of every
  function that decodes, and \<open>None\<close> stands for a rejected promise (the decode throws).
\<close>

record ImageBitmap =
  bm_width :: nat
  bm_height :: nat

type_synonym 'f decoder = "'f \<Rightarrow> ImageBitmap option"

record ValidationResult =
  isValid :: bool
  error :: "string option"
  detectedType :: "string option"

section \<open>File validation (src/lib/fileValidation.ts)\<close>

text \<open>\<^verbatim>\<open>FILE_SIGNATURES\<close>, in the insertion order that \<^verbatim>\<open>Object.entries\<close> walks.\<close>

definition FILE_SIGNATURES :: "(string \<times> byte list list) list" where
  "FILE_SIGNATURES =
    [(''image/jpeg'',
        [[0xFF, 0xD8, 0xFF, 0xE0],
         [0xFF, 0xD8, 0xFF, 0xE1],
         [0xFF, 0xD8, 0xFF, 0xE8],
         [0xFF, 0xD8, 0xFF, 0xDB]]),
     (''image/png'',
        [[0x89, 0x50, 0x4E, 0x47, 0x0D, 0x0A, 0x1A, 0x0A]]),
     (''image/webp'',
        [[0x52, 0x49, 0x46, 0x46]]),
     (''image/bmp'',
        [[0x42, 0x4D]]),
     (''image/gif'',
        [[0x47, 0x49, 0x46, 0x38, 0x37, 0x61],
         [0x47, 0x49, 0x46, 0x38, 0x39, 0x61]])]"

text \<open>\<^verbatim>\<open>file.slice(0, bytes)\<close> read into a \<^verbatim>\<open>Uint8Array\<close>.\<close>

definition readFileHeader :: "File \<Rightarrow> nat \<Rightarrow> byte list" where
  "readFileHeader file n = take n (fbytes file)"

text \<open>
  \<^verbatim>\<open>header[index]\<close> on a typed array: \<^verbatim>\<open>undefined\<close> (here \<open>None\<close>) past the end, and
  \<^verbatim>\<open>undefined === byte\<close> is false.
\<close>

definition header_at :: "byte list \<Rightarrow> nat \<Rightarrow> byte option" where
  "header_at header index = (if index < length header then Some (header ! index) else None)"

definition sig_every :: "byte list \<Rightarrow> byte list \<Rightarrow> bool" where
  "sig_every header sig =
     list_all (\<lambda>index. header_at header index = Some (sig ! index)) [0..<length sig]"

definition matchesSignature :: "byte list \<Rightarrow> byte list list \<Rightarrow> bool" where
  "matchesSignature header signatures = list_ex (sig_every header) signatures"

definition isWebP :: "File \<Rightarrow> bool" where
  "isWebP file =
     (let header = readFileHeader file 12;
          isRIFF = (header_at header 0 = Some 0x52 \<and> header_at header 1 = Some 0x49 \<and>
                    header_at header 2 = Some 0x46 \<and> header_at header 3 = Some 0x46);
          isWEBP = (header_at header 8 = Some 0x57 \<and> header_at header 9 = Some 0x45 \<and>
                    header_at header 10 = Some 0x42 \<and> header_at header 11 = Some 0x50)
      in isRIFF \<and> isWEBP)"

text \<open>
  \<^verbatim>\<open>checkDimensions\<close>: decode, read the dimensions, close; any exception of the decode
  is caught and answers \<^verbatim>\<open>false\<close>.
\<close>

definition checkDimensions :: "File decoder \<Rightarrow> File \<Rightarrow> bool" where
  "checkDimensions createImageBitmap file =
     (case createImageBitmap file of
        None \<Rightarrow> False
      | Some bitmap \<Rightarrow>
          (let width = bm_width bitmap; height = bm_height bitmap in
           if width > MAX_WIDTH \<or> height > MAX_HEIGHT then False
           else if width * height > MAX_PIXELS then False
           else True))"

text \<open>
  The loop of \<^verbatim>\<open>detectImageType\<close> over the entries of the table: the WebP entry is
  decided by \<^verbatim>\<open>isWebP\<close> alone (\<^verbatim>\<open>continue\<close> when it fails), every other entry by
  \<^verbatim>\<open>matchesSignature\<close>; the first entry that matches is returned.
\<close>

fun detect_entries :: "File \<Rightarrow> byte list \<Rightarrow> (string \<times> byte list list) list \<Rightarrow> string option" where
  "detect_entries file header [] = None"
| "detect_entries file header ((mimeType, signatures) # rest) =
     (if mimeType = ''image/webp'' then
        (if isWebP file then Some mimeType else detect_entries file header rest)
      else if matchesSignature header signatures then Some mimeType
      else detect_entries file header rest)"

definition detectImageType :: "File \<Rightarrow> string option" where
  "detectImageType file = detect_entries file (readFileHeader file 16) FILE_SIGNATURES"

text \<open>\<^verbatim>\<open>s.startsWith(p)\<close>.\<close>

definition startsWith :: "string \<Rightarrow> string \<Rightarrow> bool" where
  "startsWith s p = (take (length p) s = p)"

definition reject :: "string \<Rightarrow> ValidationResult" where
  "reject msg = \<lparr>isValid = False, error = Some msg, detectedType = None\<rparr>"

definition validateImageFile :: "File decoder \<Rightarrow> File \<Rightarrow> ValidationResult" where
  "validateImageFile createImageBitmap file =
     (if fsize file = 0 then reject ''File is empty (0 bytes)''
      else if fsize file > MAX_FILE_SIZE then reject ''File size exceeds limit of 100MB''
      else if \<not> startsWith (ftype file) ''image/'' then
        reject (''Invalid MIME type: '' @ (if ftype file = [] then ''unknown'' else ftype file))
      else
        (case detectImageType file of
           None \<Rightarrow>
             reject ''File header does not match any supported image format (JPG, PNG, WebP, BMP)''
         | Some detected \<Rightarrow>
             if \<not> checkDimensions createImageBitmap file then
               reject ''Image exceeds maximum safe dimensions (Decompression Bomb protection)''
             else \<lparr>isValid = True, error = None, detectedType = Some detected\<rparr>))"

section \<open>BMP encoder (src/lib/bmpEncoder.ts)\<close>

text \<open>
  An \<^verbatim>\<open>ImageData\<close>: width, height and the RGBA bytes (a \<^verbatim>\<open>Uint8ClampedArray\<close>, four bytes
  per pixel, rows from the top).
\<close>

record ImageData =
  img_width :: nat
  img_height :: nat
  img_data :: "byte list"

text \<open>
  \<^verbatim>\<open>data[i]\<close> handed to \<^verbatim>\<open>setUint8\<close>: past the end of the array the read is
  \<^verbatim>\<open>undefined\<close>, which \<^verbatim>\<open>setUint8\<close> stores as 0.
\<close>

definition data_at :: "byte list \<Rightarrow> nat \<Rightarrow> byte" where
  "data_at data i = (if i < length data then data ! i else 0)"

text \<open>
  The \<^verbatim>\<open>DataView\<close> over the buffer. A setter stores the value modulo its width
  (\<^verbatim>\<open>ToUint16\<close>, \<^verbatim>\<open>ToUint32\<close>, \<^verbatim>\<open>ToInt32\<close>), low byte first when \<^verbatim>\<open>littleEndian\<close> is
  true. The buffer is a list of bytes, a store is an update of the list at the offset.
\<close>

fun write_bytes :: "byte list \<Rightarrow> nat \<Rightarrow> byte list \<Rightarrow> byte list" where
  "write_bytes buf byteOffset [] = buf"
| "write_bytes buf byteOffset (b # bs) = write_bytes (buf[byteOffset := b]) (Suc byteOffset) bs"

definition bytes16 :: "16 word \<Rightarrow> byte list" where
  "bytes16 w = [ucast w, ucast (drop_bit 8 w)]"

definition bytes32 :: "32 word \<Rightarrow> byte list" where
  "bytes32 w = [ucast w, ucast (drop_bit 8 w), ucast (drop_bit 16 w), ucast (drop_bit 24 w)]"

definition setUint8 :: "byte list \<Rightarrow> nat \<Rightarrow> byte \<Rightarrow> byte list" where
  "setUint8 buf byteOffset v = write_bytes buf byteOffset [v]"

definition setUint16 :: "byte list \<Rightarrow> nat \<Rightarrow> nat \<Rightarrow> bool \<Rightarrow> byte list" where
  "setUint16 buf byteOffset v littleEndian =
     write_bytes buf byteOffset
       (if littleEndian then bytes16 (of_nat v) else rev (bytes16 (of_nat v)))"

definition setUint32 :: "byte list \<Rightarrow> nat \<Rightarrow> nat \<Rightarrow> bool \<Rightarrow> byte list" where
  "setUint32 buf byteOffset v littleEndian =
     write_bytes buf byteOffset
       (if littleEndian then bytes32 (of_nat v) else rev (bytes32 (of_nat v)))"

definition setInt32 :: "byte list \<Rightarrow> nat \<Rightarrow> int \<Rightarrow> bool \<Rightarrow> byte list" where
  "setInt32 buf byteOffset v littleEndian =
     write_bytes buf byteOffset
       (if littleEndian then bytes32 (of_int v) else rev (bytes32 (of_int v)))"

text \<open>The two headers, written field by field as \<^verbatim>\<open>encodeBMP\<close> does.\<close>

definition write_headers :: "byte list \<Rightarrow> nat \<Rightarrow> nat \<Rightarrow> nat \<Rightarrow> byte list" where
  "write_headers view fileSize width height =
     (let view = setUint16 view 0 0x424D False;
          view = setUint32 view 2 fileSize True;
          view = setUint16 view 6 0 True;
          view = setUint16 view 8 0 True;
          view = setUint32 view 10 54 True;
          view = setUint32 view 14 40 True;
          view = setInt32 view 18 (int width) True;
          view = setInt32 view 22 (- int height) True;
          view = setUint16 view 26 1 True;
          view = setUint16 view 28 24 True;
          view = setUint32 view 30 0 True;
          view = setUint32 view 34 0 True;
          view = setInt32 view 38 2835 True;
          view = setInt32 view 42 2835 True;
          view = setUint32 view 46 0 True;
          view = setUint32 view 50 0 True
      in view)"

text \<open>
  The pixel loops. The state of a loop is the buffer and \<^verbatim>\<open>offset\<close>; each
  \<^verbatim>\<open>view.setUint8(offset++, v)\<close> stores and advances. A \<^verbatim>\<open>for\<close> loop over
  \<^verbatim>\<open>0 \<le> x < width\<close> with no \<^verbatim>\<open>break\<close> is a fold over \<open>[0..<width]\<close>.
\<close>

definition pixel_body :: "byte list \<Rightarrow> nat \<Rightarrow> nat \<Rightarrow> nat \<Rightarrow> byte list \<times> nat \<Rightarrow> byte list \<times> nat" where
  "pixel_body data width y x = (\<lambda>(view, offset).
     (let i = (y * width + x) * 4;
          view = setUint8 view offset (data_at data (i + 2));
          view = setUint8 view (offset + 1) (data_at data (i + 1));
          view = setUint8 view (offset + 2) (data_at data i)
      in (view, offset + 3)))"

definition padding_body :: "nat \<Rightarrow> byte list \<times> nat \<Rightarrow> byte list \<times> nat" where
  "padding_body p = (\<lambda>(view, offset). (setUint8 view offset 0, offset + 1))"

definition row_body :: "byte list \<Rightarrow> nat \<Rightarrow> nat \<Rightarrow> nat \<Rightarrow> byte list \<times> nat \<Rightarrow> byte list \<times> nat" where
  "row_body data width padding y st =
     fold padding_body [0..<padding] (fold (pixel_body data width y) [0..<width] st)"

definition bmp_padding :: "nat \<Rightarrow> nat" where
  "bmp_padding width = (4 - (width * 3) mod 4) mod 4"

definition bmp_fileSize :: "nat \<Rightarrow> nat \<Rightarrow> nat" where
  "bmp_fileSize width height = 54 + (width * 3 + bmp_padding width) * height"

text \<open>
  \<^verbatim>\<open>encodeBMP\<close>, with the final value of \<^verbatim>\<open>offset\<close> kept beside the buffer. The
  returned \<^verbatim>\<open>Blob\<close> (type \<^verbatim>\<open>image/bmp\<close>) is the buffer.
\<close>

definition encodeBMP_run :: "ImageData \<Rightarrow> byte list \<times> nat" where
  "encodeBMP_run imageData =
     (let width = img_width imageData; height = img_height imageData; data = img_data imageData;
          padding = bmp_padding width;
          fileSize = bmp_fileSize width height;
          buffer = replicate fileSize 0;
          view = write_headers buffer fileSize width height
      in fold (row_body data width padding) [0..<height] (view, 54))"

definition encodeBMP :: "ImageData \<Rightarrow> byte list" where
  "encodeBMP imageData = fst (encodeBMP_run imageData)"

section \<open>Image processing (src/lib/imageProcessor.ts)\<close>

text \<open>
  JavaScript numbers. A \<^verbatim>\<open>number\<close> is a finite value, one of the two infinities or
  \<^verbatim>\<open>NaN\<close>; the sign of zero is not kept. The width and the height of the options are such
  numbers. The other numeric options (the quality, the target size, the crop rectangle) are
  read as real numbers, the value of the finite double they hold; a target size that is
  \<^verbatim>\<open>NaN\<close> fails the test \<^verbatim>\<open>options.targetSizeKB && options.targetSizeKB > 0\<close> as an
  absent one does, and is the case \<open>None\<close>, and so is a crop rectangle whose width or
  height is \<^verbatim>\<open>NaN\<close>.
\<close>

datatype number = Num real | PosInfinity | NegInfinity | NaN

text \<open>
  \<^verbatim>\<open>Math.round\<close> rounds a tie towards plus infinity; it keeps \<^verbatim>\<open>NaN\<close> and the
  infinities.
\<close>

definition Math_round :: "real \<Rightarrow> int" where
  "Math_round x = \<lfloor>x + 1 / 2\<rfloor>"

fun Math_round_num :: "number \<Rightarrow> number" where
  "Math_round_num (Num x) = Num (of_int (Math_round x))"
| "Math_round_num PosInfinity = PosInfinity"
| "Math_round_num NegInfinity = NegInfinity"
| "Math_round_num NaN = NaN"

text \<open>
  \<^verbatim>\<open>Math.min(a, b)\<close> and \<^verbatim>\<open>Math.max(a, b)\<close>: \<^verbatim>\<open>NaN\<close> as soon as an argument is
  \<^verbatim>\<open>NaN\<close>.
\<close>

fun Math_min_num :: "number \<Rightarrow> number \<Rightarrow> number" where
  "Math_min_num NaN b = NaN"
| "Math_min_num a NaN = NaN"
| "Math_min_num NegInfinity b = NegInfinity"
| "Math_min_num a NegInfinity = NegInfinity"
| "Math_min_num PosInfinity b = b"
| "Math_min_num a PosInfinity = a"
| "Math_min_num (Num x) (Num y) = Num (min x y)"

fun Math_max_num :: "number \<Rightarrow> number \<Rightarrow> number" where
  "Math_max_num NaN b = NaN"
| "Math_max_num a NaN = NaN"
| "Math_max_num PosInfinity b = PosInfinity"
| "Math_max_num a PosInfinity = PosInfinity"
| "Math_max_num NegInfinity b = b"
| "Math_max_num a NegInfinity = a"
| "Math_max_num (Num x) (Num y) = Num (max x y)"

text \<open>
  Arithmetic on finite doubles (IEEE 754 binary64): the exact result, rounded to the nearest
  double, a tie to the even significand. \<open>pow2 k\<close> is the power of two of exponent \<open>k\<close>;
  \<open>expo x\<close> is the binade of a positive \<open>x\<close>, the exponent \<open>e\<close> with
  \<open>pow2 e \<le> x < pow2 (e + 1)\<close>. The doubles of that binade are the multiples of
  \<open>pow2 (e - 52)\<close>, and below the normal range the multiples of \<open>pow2 (- 1074)\<close>. The
  overflow to \<^verbatim>\<open>Infinity\<close>, from \<open>pow2 1024\<close> on, is left out: the sums and quotients
  of this program are far below it.
\<close>

definition pow2 :: "int \<Rightarrow> real" where
  "pow2 k = (if 0 \<le> k then 2 ^ nat k else 1 / 2 ^ nat (- k))"

function expo :: "real \<Rightarrow> int" where
  "expo x = (if x \<le> 0 then 0
             else if 2 \<le> x then expo (x / 2) + 1
             else if x < 1 then expo (x * 2) - 1
             else 0)"
  by pat_completeness auto
termination
proof (relation "measure (\<lambda>x. nat (2 * \<lceil>1 / x\<rceil> + \<lceil>x\<rceil>))")
  show "wf (measure (\<lambda>x::real. nat (2 * \<lceil>1 / x\<rceil> + \<lceil>x\<rceil>)))" by simp
next
  fix x :: real
  assume a: "\<not> x \<le> 0" "2 \<le> x"
  have 1: "\<lceil>1 / (x / 2)\<rceil> = 1" using a by (simp add: ceiling_eq_iff)
  have 2: "\<lceil>1 / x\<rceil> = 1" using a by (simp add: ceiling_eq_iff)
  have "x / 2 \<le> x - 1" using a by simp
  then have "\<lceil>x / 2\<rceil> \<le> \<lceil>x - 1\<rceil>" by (rule ceiling_mono)
  then have 3: "\<lceil>x / 2\<rceil> < \<lceil>x\<rceil>" by simp
  have 4: "0 < \<lceil>x\<rceil>" using a by simp
  from 1 2 3 4 have "0 < 2 * \<lceil>1 / x\<rceil> + \<lceil>x\<rceil> \<and>
      2 * \<lceil>1 / (x / 2)\<rceil> + \<lceil>x / 2\<rceil> < 2 * \<lceil>1 / x\<rceil> + \<lceil>x\<rceil>"
    by linarith
  then show "(x / 2, x) \<in> measure (\<lambda>x. nat (2 * \<lceil>1 / x\<rceil> + \<lceil>x\<rceil>))"
    by (simp only: in_measure zless_nat_conj)
next
  fix x :: real
  assume a: "\<not> x \<le> 0" "\<not> 2 \<le> x" "x < 1"
  have 1: "\<lceil>x\<rceil> = 1" using a by (simp add: ceiling_eq_iff)
  have 2: "\<lceil>x * 2\<rceil> \<le> 2" using a by (simp add: ceiling_le_iff)
  have y: "1 < 1 / x" using a by simp
  have 3: "\<lceil>1 / (x * 2)\<rceil> < \<lceil>1 / x\<rceil>"
  proof (cases "2 \<le> 1 / x")
    case True
    have "1 / (x * 2) = (1 / x) / 2" by simp
    also have "\<dots> \<le> 1 / x - 1" using True by simp
    finally have "\<lceil>1 / (x * 2)\<rceil> \<le> \<lceil>1 / x - 1\<rceil>" by (rule ceiling_mono)
    then show ?thesis by simp
  next
    case False
    then have "1 / (x * 2) \<le> 1" using a by (simp add: field_simps)
    then have "\<lceil>1 / (x * 2)\<rceil> \<le> 1" by (simp add: ceiling_le_iff)
    moreover have "1 < \<lceil>1 / x\<rceil>" using y by (simp add: less_ceiling_iff)
    ultimately show ?thesis by linarith
  qed
  have 4: "0 < \<lceil>1 / x\<rceil>" using y by linarith
  have "0 < 1 / (x * 2)" using a by simp
  then have "0 < \<lceil>1 / (x * 2)\<rceil>" by (simp only: less_ceiling_iff of_int_0)
  then have 5: "0 \<le> \<lceil>1 / (x * 2)\<rceil>" by linarith
  from 1 2 3 4 5 have "0 < 2 * \<lceil>1 / x\<rceil> + \<lceil>x\<rceil> \<and>
      2 * \<lceil>1 / (x * 2)\<rceil> + \<lceil>x * 2\<rceil> < 2 * \<lceil>1 / x\<rceil> + \<lceil>x\<rceil>"
    by linarith
  then show "(x * 2, x) \<in> measure (\<lambda>x. nat (2 * \<lceil>1 / x\<rceil> + \<lceil>x\<rceil>))"
    by (simp only: in_measure zless_nat_conj)
qed

declare expo.simps [simp del]

definition round_even :: "real \<Rightarrow> int" where
  "round_even y =
     (let f = \<lfloor>y\<rfloor>; r = y - of_int f in
      if r < 1 / 2 then f else if 1 / 2 < r then f + 1 else if even f then f else f + 1)"

definition fl64 :: "real \<Rightarrow> real" where
  "fl64 x =
     (if x = 0 then 0
      else (let e = max (expo \<bar>x\<bar>) (- 1022); ulp = pow2 (e - 52)
            in of_int (round_even (x / ulp)) * ulp))"

text \<open>The operators \<^verbatim>\<open>+\<close>, \<^verbatim>\<open>*\<close> and \<^verbatim>\<open>/\<close> on finite doubles, the divisor not zero.\<close>

definition js_plus :: "real \<Rightarrow> real \<Rightarrow> real" where
  "js_plus x y = fl64 (x + y)"

definition js_multiply :: "real \<Rightarrow> real \<Rightarrow> real" where
  "js_multiply x y = fl64 (x * y)"

definition js_divide :: "real \<Rightarrow> real \<Rightarrow> real" where
  "js_divide x y = fl64 (x / y)"

text \<open>
  The operators \<^verbatim>\<open>*\<close> and \<^verbatim>\<open>>\<close> on numbers: a product with \<^verbatim>\<open>NaN\<close>, or of zero
  and an infinity, is \<^verbatim>\<open>NaN\<close>, and no comparison with \<^verbatim>\<open>NaN\<close> holds.
\<close>

fun sign_num :: "number \<Rightarrow> int" where
  "sign_num (Num x) = (if x = 0 then 0 else if 0 < x then 1 else - 1)"
| "sign_num PosInfinity = 1"
| "sign_num NegInfinity = - 1"
| "sign_num NaN = 0"

fun js_times :: "number \<Rightarrow> number \<Rightarrow> number" where
  "js_times NaN b = NaN"
| "js_times a NaN = NaN"
| "js_times (Num x) (Num y) = Num (js_multiply x y)"
| "js_times a b =
     (if sign_num a * sign_num b = 0 then NaN
      else if 0 < sign_num a * sign_num b then PosInfinity else NegInfinity)"

fun js_gt :: "number \<Rightarrow> number \<Rightarrow> bool" where
  "js_gt NaN b = False"
| "js_gt a NaN = False"
| "js_gt (Num x) (Num y) = (y < x)"
| "js_gt PosInfinity b = (b \<noteq> PosInfinity)"
| "js_gt a PosInfinity = False"
| "js_gt a NegInfinity = (a \<noteq> NegInfinity)"
| "js_gt NegInfinity b = False"

text \<open>
  The constructor \<^verbatim>\<open>new OffscreenCanvas(width, height)\<close> takes each argument as an
  \<^verbatim>\<open>[EnforceRange] unsigned long long\<close>: \<^verbatim>\<open>NaN\<close> and the infinities throw a
  \<^verbatim>\<open>TypeError\<close>, a finite value is cut to its integer part, which throws a
  \<^verbatim>\<open>TypeError\<close> outside \<open>[0, 2^53 - 1]\<close>. \<open>None\<close> is the throw.
\<close>

definition EnforceRange :: "number \<Rightarrow> int option" where
  "EnforceRange n =
     (case n of
        Num x \<Rightarrow>
          (let k = (if 0 \<le> x then \<lfloor>x\<rfloor> else \<lceil>x\<rceil>)
           in if 0 \<le> k \<and> k \<le> 2 ^ 53 - 1 then Some k else None)
      | _ \<Rightarrow> None)"

datatype ImageFormat = JPEG | PNG | WEBP | BMP

fun format_name :: "ImageFormat \<Rightarrow> string" where
  "format_name JPEG = ''jpeg''"
| "format_name PNG = ''png''"
| "format_name WEBP = ''webp''"
| "format_name BMP = ''bmp''"

record PixelCrop =
  crop_x :: real
  crop_y :: real
  crop_width :: real
  crop_height :: real

record ProcessOptions =
  format :: ImageFormat
  quality :: real
  opt_width :: number
  opt_height :: number
  keepAspectRatio :: bool
  crop :: "PixelCrop option"
  targetSizeKB :: "real option"

text \<open>
  What a run does to the browser, in order: the bitmaps it decodes and closes (numbered by
  their position in the input), the canvas it allocates, what it paints and what it exports.
\<close>

datatype effect =
    CreateImageBitmap nat
  | BitmapClose nat
  | NewCanvas int int
  | FillRectWhite int int int int
  | DrawImageScaled "int \<times> int \<times> int \<times> int" "int \<times> int \<times> int \<times> int"
  | DrawImageAt nat real real
  | GetImageData int int
  | ConvertToBlob string "real option"

text \<open>
  The exceptions of a run: a rejected \<^verbatim>\<open>createImageBitmap\<close>, a rejected
  \<^verbatim>\<open>convertToBlob\<close>, the \<^verbatim>\<open>TypeError\<close> of the canvas constructor, and the
  \<^verbatim>\<open>throw new Error(msg)\<close> of the code itself.
  \<open>MergedTooLarge w h\<close> is the error of \<^verbatim>\<open>mergeImages\<close> whose message,
  \<^verbatim>\<open>Merged image size (WxH) exceeds safety limits.\<close>, prints the canvas size.
\<close>

datatype exn = DecodeError | ExportError | TypeError | Thrown string | MergedTooLarge nat nat

text \<open>
  The canvas of the browser, a black box: whether \<^verbatim>\<open>getContext('2d')\<close> answers a
  context for a canvas of the given size, the pixels \<^verbatim>\<open>getImageData\<close> reads back, the
  blob \<^verbatim>\<open>convertToBlob\<close> encodes for a MIME type and a quality (\<open>None\<close> when the promise
  is rejected), and the size of a blob.
\<close>

record 'b engine =
  createImageBitmap :: "File decoder"
  getContext :: "int \<Rightarrow> int \<Rightarrow> bool"
  getImageData :: "int \<Rightarrow> int \<Rightarrow> byte list"
  convertToBlob :: "string \<Rightarrow> real option \<Rightarrow> 'b option"
  blob_size :: "'b \<Rightarrow> nat"

text \<open>The blob a run returns: one of the canvas, or the bytes of \<^verbatim>\<open>encodeBMP\<close>.\<close>

datatype 'b out_blob = CanvasBlob 'b | BMPBlob "byte list"

text \<open>
  The loop of the size search, \<^verbatim>\<open>for (let i = 0; i < 5; i++)\<close>, with its variables
  \<^verbatim>\<open>minQ\<close>, \<^verbatim>\<open>maxQ\<close> and \<^verbatim>\<open>bestBlob\<close>. It answers the variables after the loop and the
  exports it made; a rejected export leaves the loop with the exception. The midpoint
  \<^verbatim>\<open>(minQ + maxQ) / 2\<close> is computed in doubles, the sum rounded and then the quotient.
\<close>

function search_loop ::
  "'b engine \<Rightarrow> string \<Rightarrow> real \<Rightarrow> nat \<Rightarrow> real \<Rightarrow> real \<Rightarrow> 'b option
     \<Rightarrow> (exn + real \<times> real \<times> 'b option) \<times> effect list" where
  "search_loop eng mimeType targetBytes i minQ maxQ bestBlob =
     (if i < 5 then
        (let midQ = js_divide (js_plus minQ maxQ) 2 in
         case convertToBlob eng mimeType (Some midQ) of
           None \<Rightarrow> (Inl ExportError, [ConvertToBlob mimeType (Some midQ)])
         | Some attempt \<Rightarrow>
             (let rest =
                (if of_nat (blob_size eng attempt) < targetBytes
                 then search_loop eng mimeType targetBytes (i + 1) midQ maxQ (Some attempt)
                 else search_loop eng mimeType targetBytes (i + 1) minQ midQ bestBlob)
              in (fst rest, ConvertToBlob mimeType (Some midQ) # snd rest)))
      else (Inr (minQ, maxQ, bestBlob), []))"
  by pat_completeness auto
termination
  by (relation "measure (\<lambda>(eng, mimeType, targetBytes, i, minQ, maxQ, bestBlob). 5 - i)") auto

declare search_loop.simps [simp del]

text \<open>
  The block \<^verbatim>\<open>Resize by Weight Logic\<close> of \<^verbatim>\<open>processImage\<close>. The literal \<^verbatim>\<open>0.01\<close> is
  the double nearest to one hundredth, \<open>fl64 (1 / 100)\<close>; the literal \<^verbatim>\<open>1.0\<close> is exact.
\<close>

definition size_search :: "'b engine \<Rightarrow> string \<Rightarrow> real \<Rightarrow> (exn + 'b) \<times> effect list" where
  "size_search eng mimeType targetBytes =
     (let minQ = fl64 (1 / 100); maxQ = 1 in
      case convertToBlob eng mimeType (Some maxQ) of
        None \<Rightarrow> (Inl ExportError, [ConvertToBlob mimeType (Some maxQ)])
      | Some attempt \<Rightarrow>
          if of_nat (blob_size eng attempt) \<le> targetBytes
          then (Inr attempt, [ConvertToBlob mimeType (Some maxQ)])
          else
            (case search_loop eng mimeType targetBytes 0 minQ maxQ None of
               (Inl e, tr) \<Rightarrow> (Inl e, ConvertToBlob mimeType (Some maxQ) # tr)
             | (Inr (minQ', maxQ', Some bestBlob), tr) \<Rightarrow>
                 (Inr bestBlob, ConvertToBlob mimeType (Some maxQ) # tr)
             | (Inr (minQ', maxQ', None), tr) \<Rightarrow>
                 (case convertToBlob eng mimeType (Some (fl64 (1 / 100))) of
                    None \<Rightarrow>
                      (Inl ExportError,
                       ConvertToBlob mimeType (Some maxQ) # tr @
                       [ConvertToBlob mimeType (Some (fl64 (1 / 100)))])
                  | Some blob \<Rightarrow>
                      (Inr blob,
                       ConvertToBlob mimeType (Some maxQ) # tr @
                       [ConvertToBlob mimeType (Some (fl64 (1 / 100)))]))))"

text \<open>
  The first statements of the \<^verbatim>\<open>try\<close> block of \<^verbatim>\<open>processImage\<close>: the source
  rectangle \<^verbatim>\<open>(sourceX, sourceY, sourceWidth, sourceHeight)\<close> and the target dimensions
  \<^verbatim>\<open>Math.max(1, Math.min(Math.round(options.width), MAX_WIDTH))\<close>, and the same for the
  height.
\<close>

definition source_rect :: "ProcessOptions \<Rightarrow> ImageBitmap \<Rightarrow> int \<times> int \<times> int \<times> int" where
  "source_rect options bitmap =
     (case crop options of
        Some c \<Rightarrow>
          if crop_width c > 0 \<and> crop_height c > 0
          then (Math_round (crop_x c), Math_round (crop_y c),
                Math_round (crop_width c), Math_round (crop_height c))
          else (0, 0, int (bm_width bitmap), int (bm_height bitmap))
      | None \<Rightarrow> (0, 0, int (bm_width bitmap), int (bm_height bitmap)))"

definition targetWidth :: "ProcessOptions \<Rightarrow> number" where
  "targetWidth options =
     Math_max_num (Num 1) (Math_min_num (Math_round_num (opt_width options)) (Num (real MAX_WIDTH)))"

definition targetHeight :: "ProcessOptions \<Rightarrow> number" where
  "targetHeight options =
     Math_max_num (Num 1) (Math_min_num (Math_round_num (opt_height options)) (Num (real MAX_HEIGHT)))"

text \<open>
  The condition of the size search on the options:
  \<^verbatim>\<open>options.targetSizeKB && options.targetSizeKB > 0\<close> and a format with a quality.
\<close>

definition sizeTargeted :: "ProcessOptions \<Rightarrow> bool" where
  "sizeTargeted options =
     ((case targetSizeKB options of Some kb \<Rightarrow> kb \<noteq> 0 \<and> kb > 0 | None \<Rightarrow> False) \<and>
      (format options = JPEG \<or> format options = WEBP))"

text \<open>
  The canvas work between the allocation and the export, for a canvas of \<open>w\<close> by \<open>h\<close>: the
  allocation, the white background for the formats without alpha, and the scaled draw of
  the source rectangle.
\<close>

definition painted :: "ProcessOptions \<Rightarrow> ImageBitmap \<Rightarrow> int \<Rightarrow> int \<Rightarrow> effect list" where
  "painted options bitmap w h =
     NewCanvas w h #
     (if format options = JPEG \<or> format options = BMP then [FillRectWhite 0 0 w h] else []) @
     [DrawImageScaled (source_rect options bitmap) (0, 0, w, h)]"

text \<open>
  The body of the \<^verbatim>\<open>try\<close> block of \<^verbatim>\<open>processImage\<close> from the canvas on, once the
  constructor has taken the target dimensions as the integers \<open>w\<close> and \<open>h\<close>: the result or
  the exception it leaves with, and its effects.
\<close>

definition canvas_work ::
  "'b engine \<Rightarrow> File \<Rightarrow> ProcessOptions \<Rightarrow> ImageBitmap \<Rightarrow> int \<Rightarrow> int
     \<Rightarrow> (exn + 'b out_blob) \<times> effect list" where
  "canvas_work eng file options bitmap w h =
     (if \<not> getContext eng w h then
        (Inl (Thrown ''Could not get canvas 2D context''), [NewCanvas w h])
      else if format options = BMP then
        (Inr (BMPBlob (encodeBMP
           \<lparr>img_width = nat w, img_height = nat h, img_data = getImageData eng w h\<rparr>)),
         painted options bitmap w h @ [GetImageData w h])
      else
        (let mimeType = ''image/'' @ format_name (format options);
             q = (if format options = JPEG \<or> format options = WEBP
                  then Some (js_divide (quality options) 100) else None)
         in
         if sizeTargeted options then
           (let targetBytes = js_multiply (the (targetSizeKB options)) 1024;
                found = size_search eng mimeType targetBytes
            in (map_sum id CanvasBlob (fst found), painted options bitmap w h @ snd found))
         else
           (case convertToBlob eng mimeType q of
              None \<Rightarrow> (Inl ExportError, painted options bitmap w h @ [ConvertToBlob mimeType q])
            | Some blob \<Rightarrow>
                (Inr (CanvasBlob blob), painted options bitmap w h @ [ConvertToBlob mimeType q]))))"

text \<open>
  The body of the \<^verbatim>\<open>try\<close> block of \<^verbatim>\<open>processImage\<close>, for the decoded bitmap: the
  pixel check on the target dimensions, then the canvas constructor, which throws on a
  dimension that is not a finite number, then the canvas work.
\<close>

definition process_try ::
  "'b engine \<Rightarrow> File \<Rightarrow> ProcessOptions \<Rightarrow> ImageBitmap \<Rightarrow> (exn + 'b out_blob) \<times> effect list" where
  "process_try eng file options bitmap =
     (if js_gt (js_times (targetWidth options) (targetHeight options)) (Num (real MAX_PIXELS)) then
        (Inl (Thrown ''Output dimensions exceed safety limit (50000000 pixels).''), [])
      else
        (case EnforceRange (targetWidth options) of
           None \<Rightarrow> (Inl TypeError, [])
         | Some w \<Rightarrow>
             (case EnforceRange (targetHeight options) of
                None \<Rightarrow> (Inl TypeError, [])
              | Some h \<Rightarrow> canvas_work eng file options bitmap w h)))"

text \<open>
  \<^verbatim>\<open>processImage\<close>: the decode stands before the \<^verbatim>\<open>try\<close>, so a rejected decode leaves
  at once; otherwise the \<^verbatim>\<open>finally\<close> block closes the bitmap after the body, however the
  body ends.
\<close>

definition processImage ::
  "'b engine \<Rightarrow> File \<Rightarrow> ProcessOptions \<Rightarrow> (exn + 'b out_blob) \<times> effect list" where
  "processImage eng file options =
     (case createImageBitmap eng file of
        None \<Rightarrow> (Inl DecodeError, [])
      | Some bitmap \<Rightarrow>
          (let body = process_try eng file options bitmap
           in (fst body, CreateImageBitmap 0 # snd body @ [BitmapClose 0])))"

subsection \<open>Grid merge\<close>

text \<open>
  \<^verbatim>\<open>Math.ceil(Math.sqrt(count))\<close>, computed on the naturals: the first \<open>c\<close> with
  \<open>count \<le> c * c\<close>.
\<close>

definition ceil_sqrt :: "nat \<Rightarrow> nat" where
  "ceil_sqrt n = hd (filter (\<lambda>c. n \<le> c * c) [0..<Suc n])"

text \<open>\<^verbatim>\<open>Math.max(...xs)\<close> on a list of dimensions.\<close>

definition Math_max :: "nat list \<Rightarrow> nat" where
  "Math_max xs = foldr max xs 0"

text \<open>
  The decode loop of \<^verbatim>\<open>mergeImages\<close>: it pushes each decoded bitmap onto \<^verbatim>\<open>bitmaps\<close>
  and stops at the first decode that throws. It answers whether it completed, and
  \<^verbatim>\<open>bitmaps\<close> as it stands.
\<close>

fun decode_loop :: "File decoder \<Rightarrow> File list \<Rightarrow> ImageBitmap list \<Rightarrow> bool \<times> ImageBitmap list" where
  "decode_loop dec [] bitmaps = (True, bitmaps)"
| "decode_loop dec (file # files) bitmaps =
     (case dec file of
        None \<Rightarrow> (False, bitmaps)
      | Some bmp \<Rightarrow> decode_loop dec files (bitmaps @ [bmp]))"

text \<open>The callback of \<^verbatim>\<open>bitmaps.forEach\<close> that places image \<^verbatim>\<open>index\<close>.\<close>

definition place :: "nat \<Rightarrow> nat \<Rightarrow> nat \<Rightarrow> nat \<Rightarrow> ImageBitmap \<Rightarrow> effect" where
  "place cols maxCellW maxCellH index bmp =
     (let r = index div cols;
          c = index mod cols;
          x = of_nat (c * maxCellW) + (of_nat maxCellW - of_nat (bm_width bmp)) / 2;
          y = of_nat (r * maxCellH) + (of_nat maxCellH - of_nat (bm_height bmp)) / 2
      in DrawImageAt index x y)"

text \<open>
  The body of the \<^verbatim>\<open>try\<close> block of \<^verbatim>\<open>mergeImages\<close>: result or exception, effects, and
  the bitmaps decoded when the body ends.
\<close>

definition merge_try ::
  "'b engine \<Rightarrow> File list \<Rightarrow> (exn + 'b) \<times> effect list \<times> ImageBitmap list" where
  "merge_try eng files =
     (case decode_loop (createImageBitmap eng) files [] of
        (False, bitmaps) \<Rightarrow> (Inl DecodeError, map CreateImageBitmap [0..<length bitmaps], bitmaps)
      | (True, bitmaps) \<Rightarrow>
          (let decoded = map CreateImageBitmap [0..<length bitmaps];
               count = length bitmaps;
               cols = ceil_sqrt count;
               rows = nat \<lceil>(of_nat count :: real) / of_nat cols\<rceil>;
               maxCellW = Math_max (map bm_width bitmaps);
               maxCellH = Math_max (map bm_height bitmaps);
               canvasWidth = maxCellW * cols;
               canvasHeight = maxCellH * rows
           in
           if canvasWidth * canvasHeight > MAX_PIXELS then
             (Inl (MergedTooLarge canvasWidth canvasHeight), decoded, bitmaps)
           else if \<not> getContext eng (int canvasWidth) (int canvasHeight) then
             (Inl (Thrown ''Failed to create canvas context''),
              decoded @ [NewCanvas (int canvasWidth) (int canvasHeight)], bitmaps)
           else
             (let painted =
                    decoded @
                    [NewCanvas (int canvasWidth) (int canvasHeight),
                     FillRectWhite 0 0 (int canvasWidth) (int canvasHeight)] @
                    map (\<lambda>(index, bmp). place cols maxCellW maxCellH index bmp)
                      (zip [0..<length bitmaps] bitmaps) @
                    [ConvertToBlob ''image/jpeg'' (Some (9 / 10))]
              in
              case convertToBlob eng ''image/jpeg'' (Some (9 / 10)) of
                None \<Rightarrow> (Inl ExportError, painted, bitmaps)
              | Some blob \<Rightarrow> (Inr blob, painted, bitmaps))))"

text \<open>
  \<^verbatim>\<open>mergeImages\<close>: the guard on an empty input stands before the \<^verbatim>\<open>try\<close>; the
  \<^verbatim>\<open>finally\<close> block closes every bitmap of \<^verbatim>\<open>bitmaps\<close>, in order.
\<close>

definition mergeImages :: "'b engine \<Rightarrow> File list \<Rightarrow> (exn + 'b) \<times> effect list" where
  "mergeImages eng files =
     (if files = [] then (Inl (Thrown ''No images to merge''), [])
      else
        (case merge_try eng files of
           (result, effects, bitmaps) \<Rightarrow>
             (result, effects @ map BitmapClose [0..<length bitmaps])))"

section \<open>Worker manager (src/lib/workerManager.ts)\<close>

text \<open>
  A \<^verbatim>\<open>WorkerMessage\<close> as the scheduler sees it: its id, its kind, and whether
  \<^verbatim>\<open>postMessage\<close> can clone its payload (\<^verbatim>\<open>postMessage\<close> throws a
  \<^verbatim>\<open>DataCloneError\<close> synchronously when it cannot).
\<close>

datatype message_type = PROCESS | VALIDATE

record WorkerMessage =
  msg_id :: string
  msg_type :: message_type
  msg_cloneable :: bool

datatype response_type = PROCESS_COMPLETE | PROCESS_ERROR | VALIDATE_RESULT

text \<open>A \<^verbatim>\<open>WorkerResponse\<close>; the result blob is named by a number.\<close>

record WorkerResponse =
  resp_id :: string
  resp_type :: response_type
  resp_result :: "nat option"
  resp_isValid :: "bool option"
  resp_error :: "string option"

text \<open>
  A promise is named by a number; settling it is an effect: the call of its \<^verbatim>\<open>resolve\<close>
  with a blob or a boolean, or of its \<^verbatim>\<open>reject\<close> with the message of an error.
\<close>

datatype settlement = ResolveBlob nat | ResolveBool bool | Reject string

text \<open>
  A job of the queue is the closure built by \<^verbatim>\<open>enqueueJob\<close>: it holds the message and
  the \<^verbatim>\<open>resolve\<close> and \<^verbatim>\<open>reject\<close> of its promise.
\<close>

record job =
  job_message :: WorkerMessage
  job_promise :: nat

text \<open>
  The module state: \<^verbatim>\<open>activeJobs\<close>, \<^verbatim>\<open>jobQueue\<close>, \<^verbatim>\<open>worker\<close> (the number of the live
  \<^verbatim>\<open>Worker\<close>, \<open>None\<close> for \<^verbatim>\<open>null\<close>) and \<^verbatim>\<open>pendingOperations\<close> (a \<^verbatim>\<open>Map\<close>, kept in
  insertion order, from message id to promise). Beside it, what the module did so far: how
  many workers it constructed, the jobs it started (each call \<^verbatim>\<open>nextJob()\<close>), the messages
  it posted and to which worker, and the promises it settled.
\<close>

record scheduler =
  activeJobs :: int
  jobQueue :: "job list"
  worker :: "nat option"
  pendingOperations :: "(string \<times> nat) list"
  workersCreated :: nat
  started :: "job list"
  posted :: "(nat \<times> WorkerMessage) list"
  settled :: "(nat \<times> settlement) list"

definition MAX_CONCURRENCY :: int where "MAX_CONCURRENCY = 2"

definition initial :: scheduler where
  "initial = \<lparr>activeJobs = 0, jobQueue = [], worker = None, pendingOperations = [],
              workersCreated = 0, started = [], posted = [], settled = []\<rparr>"

text \<open>\<^verbatim>\<open>getWorker\<close>: the live worker, or a new one.\<close>

definition getWorker :: "scheduler \<Rightarrow> nat \<times> scheduler" where
  "getWorker s =
     (case worker s of
        Some w \<Rightarrow> (w, s)
      | None \<Rightarrow>
          (workersCreated s,
           s\<lparr>worker := Some (workersCreated s), workersCreated := workersCreated s + 1\<rparr>))"

text \<open>
  The body of a job up to the end of its \<^verbatim>\<open>try\<close>, or through \<^verbatim>\<open>activeJobs--\<close> and
  \<^verbatim>\<open>reject(err)\<close> of its \<^verbatim>\<open>catch\<close>. It answers whether the message was posted; when
  it was not, the job goes on with \<^verbatim>\<open>processNextJob()\<close>.
\<close>

definition run_job :: "scheduler \<Rightarrow> job \<Rightarrow> bool \<times> scheduler" where
  "run_job s j =
     (let (w, s) = getWorker s;
          s = s\<lparr>pendingOperations :=
                 AList.update (msg_id (job_message j)) (job_promise j) (pendingOperations s)\<rparr>
      in if msg_cloneable (job_message j)
         then (True, s\<lparr>posted := posted s @ [(w, job_message j)]\<rparr>)
         else (False, s\<lparr>activeJobs := activeJobs s - 1,
                         settled := settled s @ [(job_promise j, Reject ''DataCloneError'')]\<rparr>))"

function processNextJob :: "scheduler \<Rightarrow> scheduler" where
  "processNextJob s =
     (if activeJobs s < MAX_CONCURRENCY \<and> jobQueue s \<noteq> [] then
        (let nextJob = hd (jobQueue s);
             s1 = s\<lparr>jobQueue := tl (jobQueue s), activeJobs := activeJobs s + 1,
                    started := started s @ [nextJob]\<rparr>;
             ran = run_job s1 nextJob
         in if fst ran then snd ran else processNextJob (snd ran))
      else s)"
  by pat_completeness auto
termination
  by (relation "measure (\<lambda>s. length (jobQueue s))")
     (auto simp: run_job_def getWorker_def Let_def split: option.splits prod.splits)

declare processNextJob.simps [simp del]

definition enqueueJob :: "scheduler \<Rightarrow> WorkerMessage \<Rightarrow> nat \<Rightarrow> scheduler" where
  "enqueueJob s message promise =
     processNextJob (s\<lparr>jobQueue := jobQueue s @ [\<lparr>job_message = message, job_promise = promise\<rparr>]\<rparr>)"

text \<open>
  \<^verbatim>\<open>worker.onmessage\<close>. \<^verbatim>\<open>error || 'Unknown processing error'\<close> takes the default for
  a missing or empty text, \<^verbatim>\<open>isValid ?? false\<close> for a missing flag.
\<close>

definition onmessage :: "scheduler \<Rightarrow> WorkerResponse \<Rightarrow> scheduler" where
  "onmessage s r =
     (case map_of (pendingOperations s) (resp_id r) of
        None \<Rightarrow> s
      | Some pending \<Rightarrow>
          (let s = s\<lparr>pendingOperations := AList.delete (resp_id r) (pendingOperations s),
                     activeJobs := activeJobs s - 1\<rparr>;
               s = processNextJob s
           in if resp_type r = PROCESS_ERROR then
                s\<lparr>settled := settled s @
                    [(pending, Reject (case resp_error r of
                                         None \<Rightarrow> ''Unknown processing error''
                                       | Some e \<Rightarrow> if e = [] then ''Unknown processing error'' else e))]\<rparr>
              else if resp_type r = PROCESS_COMPLETE \<and> resp_result r \<noteq> None then
                s\<lparr>settled := settled s @ [(pending, ResolveBlob (the (resp_result r)))]\<rparr>
              else if resp_type r = VALIDATE_RESULT then
                s\<lparr>settled := settled s @
                    [(pending, ResolveBool (case resp_isValid r of None \<Rightarrow> False | Some b \<Rightarrow> b))]\<rparr>
              else s))"

text \<open>\<^verbatim>\<open>worker.onerror\<close>.\<close>

definition onerror :: "scheduler \<Rightarrow> scheduler" where
  "onerror s =
     s\<lparr>settled := settled s @ map (\<lambda>(k, pending). (pending, Reject ''Worker crashed'')) (pendingOperations s),
       pendingOperations := [],
       activeJobs := 0,
       jobQueue := [],
       worker := None\<rparr>"

definition terminateWorker :: "scheduler \<Rightarrow> scheduler" where
  "terminateWorker s = s\<lparr>worker := None, pendingOperations := [], jobQueue := [], activeJobs := 0\<rparr>"

text \<open>
  What can happen to the module: a call of \<^verbatim>\<open>processImageAsync\<close> or
  \<^verbatim>\<open>validateImageAsync\<close> (a message and the new promise), a response or an error event of
  the live worker (a terminated worker, or none, delivers no event), and a call of
  \<^verbatim>\<open>terminateWorker\<close>.
\<close>

datatype event = Submit WorkerMessage nat | Message WorkerResponse | WorkerError | Terminate

fun step :: "scheduler \<Rightarrow> event \<Rightarrow> scheduler" where
  "step s (Submit message promise) = enqueueJob s message promise"
| "step s (Message r) = (if worker s = None then s else onmessage s r)"
| "step s WorkerError = (if worker s = None then s else onerror s)"
| "step s Terminate = terminateWorker s"

definition run :: "event list \<Rightarrow> scheduler \<Rightarrow> scheduler" where
  "run evs s = foldl step s evs"

section \<open>Auxiliary definitions for the statements\<close>

text \<open>
  The bytes that one pixel and one row contribute to the file, in closed form; the loops of
  \<^verbatim>\<open>encodeBMP\<close> are proved to write exactly these.
\<close>

definition bmp_pixel :: "byte list \<Rightarrow> nat \<Rightarrow> nat \<Rightarrow> nat \<Rightarrow> byte list" where
  "bmp_pixel data width y x =
     [data_at data ((y * width + x) * 4 + 2), data_at data ((y * width + x) * 4 + 1),
      data_at data ((y * width + x) * 4)]"

definition bmp_row :: "byte list \<Rightarrow> nat \<Rightarrow> nat \<Rightarrow> byte list" where
  "bmp_row data width y =
     concat (map (bmp_pixel data width y) [0..<width]) @ replicate (bmp_padding width) 0"

text \<open>
  Reading a header field back, as \<^verbatim>\<open>DataView.getInt32(byteOffset, true)\<close> does: four
  bytes, low byte first, as a signed 32-bit value.
\<close>

fun word_of_bytes32 :: "byte list \<Rightarrow> 32 word" where
  "word_of_bytes32 [b0, b1, b2, b3] =
     ucast b0 OR push_bit 8 (ucast b1) OR push_bit 16 (ucast b2) OR push_bit 24 (ucast b3)"
| "word_of_bytes32 _ = 0"

definition getInt32 :: "byte list \<Rightarrow> nat \<Rightarrow> int" where
  "getInt32 buf byteOffset = sint (word_of_bytes32 (take 4 (drop byteOffset buf)))"

text \<open>
  The jobs that a list of events submits, in order, and the promises that a state of the
  scheduler still holds or has settled.
\<close>

fun submissions :: "event list \<Rightarrow> job list" where
  "submissions [] = []"
| "submissions (Submit message promise # evs) =
     \<lparr>job_message = message, job_promise = promise\<rparr> # submissions evs"
| "submissions (ev # evs) = submissions evs"

definition promises :: "scheduler \<Rightarrow> nat set" where
  "promises s = snd ` set (pendingOperations s) \<union> job_promise ` set (jobQueue s) \<union>
                fst ` set (settled s)"

text \<open>Concrete inputs.\<close>

definition png_file :: File where
  "png_file = \<lparr>fbytes = [0x89, 0x50, 0x4E, 0x47, 0x0D, 0x0A, 0x1A, 0x0A, 0, 0, 0, 0x0D],
               ftype = ''image/png''\<rparr>"

definition bmp_sample :: ImageData where
  "bmp_sample = \<lparr>img_width = 2, img_height = 2,
      img_data = [1, 2, 3, 255,  4, 5, 6, 255,  7, 8, 9, 255,  10, 11, 12, 255]\<rparr>"


text \<open>
  A canvas whose exports weigh a thousand bytes per unit of quality, and options that ask
  for a 500 by 500 JPEG of at most 600 bytes from the top square of the source.
\<close>

definition eng0 :: "nat engine" where
  "eng0 = \<lparr>createImageBitmap = (\<lambda>f. Some \<lparr>bm_width = 1000, bm_height = 2000\<rparr>),
           getContext = (\<lambda>w h. True),
           getImageData = (\<lambda>w h. replicate (nat (4 * w * h)) 7),
           convertToBlob = (\<lambda>m q. case q of None \<Rightarrow> Some 5000 | Some q \<Rightarrow> Some (nat \<lfloor>q * 1000\<rfloor>)),
           blob_size = (\<lambda>b. b)\<rparr>"

definition opts0 :: ProcessOptions where
  "opts0 = \<lparr>format = JPEG, quality = 80, opt_width = Num 500, opt_height = Num 500,
     keepAspectRatio = False,
     crop = Some \<lparr>crop_x = 0, crop_y = 0, crop_width = 1000, crop_height = 1000\<rparr>,
     targetSizeKB = Some (600 / 1024)\<rparr>"

text \<open>
  A canvas for the merge of equal images of 100 by 100, and one whose decoder rejects every
  file not declared as PNG.
\<close>

definition eng100 :: "nat engine" where
  "eng100 = \<lparr>createImageBitmap = (\<lambda>f. Some \<lparr>bm_width = 100, bm_height = 100\<rparr>),
             getContext = (\<lambda>w h. True),
             getImageData = (\<lambda>w h. []),
             convertToBlob = (\<lambda>m q. Some 900),
             blob_size = (\<lambda>b. b)\<rparr>"

definition eng_fail3 :: "nat engine" where
  "eng_fail3 = eng100\<lparr>createImageBitmap :=
      (\<lambda>f. if ftype f = ''image/png'' then Some \<lparr>bm_width = 100, bm_height = 50\<rparr> else None)\<rparr>"

text \<open>
  Messages that can be cloned, a successful response, and the submissions of five and of
  three requests at once.
\<close>

definition msg :: "string \<Rightarrow> WorkerMessage" where
  "msg k = \<lparr>msg_id = k, msg_type = PROCESS, msg_cloneable = True\<rparr>"

definition done_ok :: "string \<Rightarrow> WorkerResponse" where
  "done_ok k = \<lparr>resp_id = k, resp_type = PROCESS_COMPLETE, resp_result = Some 7,
                resp_isValid = None, resp_error = None\<rparr>"


definition five :: "event list" where
  "five = [Submit (msg ''a'') 0, Submit (msg ''b'') 1, Submit (msg ''c'') 2,
           Submit (msg ''d'') 3, Submit (msg ''e'') 4]"

definition three :: "event list" where
  "three = [Submit (msg ''a'') 0, Submit (msg ''b'') 1, Submit (msg ''c'') 2]"

section \<open>Properties of the file validation\<close>

subsection \<open>Signatures as prefixes of the file\<close>

lemma header_at_take: "header_at (take n bs) i = (if i < n then header_at bs i else None)"
  by (simp add: header_at_def)

lemma sig_every_iff: "sig_every header sig \<longleftrightarrow> take (length sig) header = sig"
proof
  assume a: "sig_every header sig"
  then have len: "length sig \<le> length header"
    by (cases "length sig") (auto simp: sig_every_def list_all_iff header_at_def split: if_splits)
  from a have "\<forall>i<length sig. header ! i = sig ! i"
    by (auto simp: sig_every_def list_all_iff header_at_def split: if_splits)
  with len show "take (length sig) header = sig"
    by (intro nth_equalityI) auto
next
  assume b: "take (length sig) header = sig"
  have len: "length sig \<le> length header"
    using arg_cong [OF b, of length] by simp
  have "\<forall>i<length sig. header ! i = sig ! i"
  proof (intro allI impI)
    fix i assume "i < length sig"
    then have "take (length sig) header ! i = header ! i" by simp
    with b show "header ! i = sig ! i" by simp
  qed
  with len show "sig_every header sig"
    by (auto simp: sig_every_def list_all_iff header_at_def)
qed

lemma sig_every_header16:
  "length sig \<le> 16 \<Longrightarrow> sig_every (readFileHeader file 16) sig \<longleftrightarrow> take (length sig) (fbytes file) = sig"
  by (simp add: sig_every_iff readFileHeader_def min_def)

lemma take4_iff: "take 4 bs = [a, b, c, d] \<longleftrightarrow>
   header_at bs 0 = Some a \<and> header_at bs 1 = Some b \<and> header_at bs 2 = Some c \<and> header_at bs 3 = Some d"
proof -
  have e: "length [a, b, c, d] = 4" by simp
  have "sig_every bs [a, b, c, d] \<longleftrightarrow> take 4 bs = [a, b, c, d]"
    using sig_every_iff [of bs "[a, b, c, d]"] unfolding e .
  then show ?thesis
    by (simp add: sig_every_def eval_nat_numeral)
qed


lemma header_at_drop: "header_at (drop n bs) i = header_at bs (n + i)"
  by (auto simp: header_at_def)

lemma isWebP_iff:
  "isWebP file \<longleftrightarrow> take 4 (fbytes file) = [0x52, 0x49, 0x46, 0x46] \<and>
      take 4 (drop 8 (fbytes file)) = [0x57, 0x45, 0x42, 0x50]"
  by (simp add: isWebP_def Let_def readFileHeader_def take4_iff header_at_take header_at_drop)

lemma sig_every_2:
  "sig_every (readFileHeader file 16) [a, b] \<longleftrightarrow> take 2 (fbytes file) = [a, b]"
proof -
  have e: "length [a, b] = 2" by simp
  show ?thesis using sig_every_header16 [of "[a, b]" "file"] unfolding e by simp
qed

lemma sig_every_4:
  "sig_every (readFileHeader file 16) [a, b, c, d] \<longleftrightarrow> take 4 (fbytes file) = [a, b, c, d]"
proof -
  have e: "length [a, b, c, d] = 4" by simp
  show ?thesis using sig_every_header16 [of "[a, b, c, d]" "file"] unfolding e by simp
qed

lemma sig_every_6:
  "sig_every (readFileHeader file 16) [a, b, c, d, e, f] \<longleftrightarrow>
     take 6 (fbytes file) = [a, b, c, d, e, f]"
proof -
  have e: "length [a, b, c, d, e, f] = 6" by simp
  show ?thesis using sig_every_header16 [of "[a, b, c, d, e, f]" "file"] unfolding e by simp
qed

lemma sig_every_8:
  "sig_every (readFileHeader file 16) [a, b, c, d, e, f, g, h] \<longleftrightarrow>
     take 8 (fbytes file) = [a, b, c, d, e, f, g, h]"
proof -
  have e: "length [a, b, c, d, e, f, g, h] = 8" by simp
  show ?thesis using sig_every_header16 [of "[a, b, c, d, e, f, g, h]" "file"] unfolding e by simp
qed

lemma detectImageType_eq:
  "detectImageType file =
     (let bs = fbytes file in
      if take 4 bs = [0xFF, 0xD8, 0xFF, 0xE0] \<or> take 4 bs = [0xFF, 0xD8, 0xFF, 0xE1] \<or>
         take 4 bs = [0xFF, 0xD8, 0xFF, 0xE8] \<or> take 4 bs = [0xFF, 0xD8, 0xFF, 0xDB]
      then Some ''image/jpeg''
      else if take 8 bs = [0x89, 0x50, 0x4E, 0x47, 0x0D, 0x0A, 0x1A, 0x0A] then Some ''image/png''
      else if take 4 bs = [0x52, 0x49, 0x46, 0x46] \<and> take 4 (drop 8 bs) = [0x57, 0x45, 0x42, 0x50]
      then Some ''image/webp''
      else if take 2 bs = [0x42, 0x4D] then Some ''image/bmp''
      else if take 6 bs = [0x47, 0x49, 0x46, 0x38, 0x37, 0x61] \<or>
              take 6 bs = [0x47, 0x49, 0x46, 0x38, 0x39, 0x61]
      then Some ''image/gif''
      else None)"
  by (simp add: detectImageType_def FILE_SIGNATURES_def matchesSignature_def isWebP_iff Let_def
        sig_every_2 sig_every_4 sig_every_6 sig_every_8)

lemma detectImageType_ftype: "detectImageType (file\<lparr>ftype := t\<rparr>) = detectImageType file"
  by (simp add: detectImageType_eq)

lemma checkDimensions_iff:
  "checkDimensions dec file \<longleftrightarrow>
     (\<exists>bitmap. dec file = Some bitmap \<and> bm_width bitmap \<le> MAX_WIDTH \<and>
        bm_height bitmap \<le> MAX_HEIGHT \<and> bm_width bitmap * bm_height bitmap \<le> MAX_PIXELS)"
  by (auto simp: checkDimensions_def Let_def split: option.splits)

subsection \<open>The order of the checks\<close>

text \<open>
  Claim C6. \<^verbatim>\<open>validateImageFile\<close> checks in a fixed order and stops at the first check
  that fails: an empty file is rejected as empty; a non-empty file larger than
  \<^verbatim>\<open>MAX_FILE_SIZE\<close> is rejected for its size; then a declared type that does not start with
  \<^verbatim>\<open>image/\<close> is rejected; then a file whose leading bytes match no signature of the
  allowlist is rejected as unsupported. Each rejection carries the message of its own check,
  and the allowlist is exactly: four JPEG markers, the PNG signature, RIFF with the nested
  WEBP tag at offset 8, the BMP magic, and the two GIF headers.
\<close>

theorem validateImageFile_check_order:
  "(fsize file = 0 \<longrightarrow>
      validateImageFile dec file = reject ''File is empty (0 bytes)'') \<and>
   (0 < fsize file \<and> MAX_FILE_SIZE < fsize file \<longrightarrow>
      validateImageFile dec file = reject ''File size exceeds limit of 100MB'') \<and>
   (0 < fsize file \<and> fsize file \<le> MAX_FILE_SIZE \<and> \<not> startsWith (ftype file) ''image/'' \<longrightarrow>
      validateImageFile dec file =
        reject (''Invalid MIME type: '' @ (if ftype file = [] then ''unknown'' else ftype file))) \<and>
   (0 < fsize file \<and> fsize file \<le> MAX_FILE_SIZE \<and> startsWith (ftype file) ''image/'' \<and>
    detectImageType file = None \<longrightarrow>
      validateImageFile dec file =
        reject ''File header does not match any supported image format (JPG, PNG, WebP, BMP)'') \<and>
   (detectImageType file = None \<longleftrightarrow>
      \<not> (take 4 (fbytes file) \<in> {[0xFF, 0xD8, 0xFF, 0xE0], [0xFF, 0xD8, 0xFF, 0xE1],
                                  [0xFF, 0xD8, 0xFF, 0xE8], [0xFF, 0xD8, 0xFF, 0xDB]} \<or>
         take 8 (fbytes file) = [0x89, 0x50, 0x4E, 0x47, 0x0D, 0x0A, 0x1A, 0x0A] \<or>
         (take 4 (fbytes file) = [0x52, 0x49, 0x46, 0x46] \<and>
          take 4 (drop 8 (fbytes file)) = [0x57, 0x45, 0x42, 0x50]) \<or>
         take 2 (fbytes file) = [0x42, 0x4D] \<or>
         take 6 (fbytes file) \<in> {[0x47, 0x49, 0x46, 0x38, 0x37, 0x61],
                                  [0x47, 0x49, 0x46, 0x38, 0x39, 0x61]}))"
proof (intro conjI impI)
  show "detectImageType file = None \<longleftrightarrow>
      \<not> (take 4 (fbytes file) \<in> {[0xFF, 0xD8, 0xFF, 0xE0], [0xFF, 0xD8, 0xFF, 0xE1],
                                  [0xFF, 0xD8, 0xFF, 0xE8], [0xFF, 0xD8, 0xFF, 0xDB]} \<or>
         take 8 (fbytes file) = [0x89, 0x50, 0x4E, 0x47, 0x0D, 0x0A, 0x1A, 0x0A] \<or>
         (take 4 (fbytes file) = [0x52, 0x49, 0x46, 0x46] \<and>
          take 4 (drop 8 (fbytes file)) = [0x57, 0x45, 0x42, 0x50]) \<or>
         take 2 (fbytes file) = [0x42, 0x4D] \<or>
         take 6 (fbytes file) \<in> {[0x47, 0x49, 0x46, 0x38, 0x37, 0x61],
                                  [0x47, 0x49, 0x46, 0x38, 0x39, 0x61]})"
    unfolding detectImageType_eq Let_def by (simp split: if_splits)
qed (simp_all add: validateImageFile_def)

theorem validateImageFile_check_order_witness:
  "validateImageFile (\<lambda>_. None) \<lparr>fbytes = [], ftype = ''image/png''\<rparr>
     = reject ''File is empty (0 bytes)'' \<and>
   validateImageFile (\<lambda>_. None) \<lparr>fbytes = replicate 104857601 0, ftype = ''image/png''\<rparr>
     = reject ''File size exceeds limit of 100MB'' \<and>
   validateImageFile (\<lambda>_. None) \<lparr>fbytes = [0x89, 0x50, 0x4E, 0x47], ftype = ''text/plain''\<rparr>
     = reject ''Invalid MIME type: text/plain'' \<and>
   validateImageFile (\<lambda>_. None)
       \<lparr>fbytes = [0, 0, 0, 0x20, 0x66, 0x74, 0x79, 0x70, 0x61, 0x76, 0x69, 0x66], ftype = ''image/avif''\<rparr>
     = reject ''File header does not match any supported image format (JPG, PNG, WebP, BMP)''"
  using validateImageFile_check_order
          [of "\<lparr>fbytes = [], ftype = ''image/png''\<rparr>" "\<lambda>_. None"]
        validateImageFile_check_order
          [of "\<lparr>fbytes = replicate 104857601 0, ftype = ''image/png''\<rparr>" "\<lambda>_. None"]
        validateImageFile_check_order
          [of "\<lparr>fbytes = [0x89, 0x50, 0x4E, 0x47], ftype = ''text/plain''\<rparr>" "\<lambda>_. None"]
        validateImageFile_check_order
          [of "\<lparr>fbytes = [0, 0, 0, 0x20, 0x66, 0x74, 0x79, 0x70, 0x61, 0x76, 0x69, 0x66],
                ftype = ''image/avif''\<rparr>" "\<lambda>_. None"]
  by (simp add: fsize_def MAX_FILE_SIZE_def startsWith_def)

subsection \<open>The decompression-bomb guard\<close>

text \<open>
  Claim C7. The guard fails closed. Whenever the decode probe throws, or the probed width
  exceeds \<^verbatim>\<open>MAX_WIDTH\<close>, or the height exceeds \<^verbatim>\<open>MAX_HEIGHT\<close>, or width times height
  exceeds \<^verbatim>\<open>MAX_PIXELS\<close>, \<^verbatim>\<open>validateImageFile\<close> does not accept the file; and for a
  file that passed the size, MIME and signature checks the answer is the rejection of the
  dimension check.
\<close>

theorem validateImageFile_fails_closed:
  "(dec file = None \<or>
    (\<exists>bitmap. dec file = Some bitmap \<and>
       (MAX_WIDTH < bm_width bitmap \<or> MAX_HEIGHT < bm_height bitmap \<or>
        MAX_PIXELS < bm_width bitmap * bm_height bitmap)))
   \<longrightarrow>
   \<not> isValid (validateImageFile dec file) \<and>
   (0 < fsize file \<and> fsize file \<le> MAX_FILE_SIZE \<and> startsWith (ftype file) ''image/'' \<and>
    detectImageType file \<noteq> None \<longrightarrow>
      validateImageFile dec file =
        reject ''Image exceeds maximum safe dimensions (Decompression Bomb protection)'')"
proof (intro impI)
  assume "dec file = None \<or>
    (\<exists>bitmap. dec file = Some bitmap \<and>
       (MAX_WIDTH < bm_width bitmap \<or> MAX_HEIGHT < bm_height bitmap \<or>
        MAX_PIXELS < bm_width bitmap * bm_height bitmap))"
  then have "\<not> checkDimensions dec file"
    unfolding checkDimensions_iff by auto
  then show "\<not> isValid (validateImageFile dec file) \<and>
   (0 < fsize file \<and> fsize file \<le> MAX_FILE_SIZE \<and> startsWith (ftype file) ''image/'' \<and>
    detectImageType file \<noteq> None \<longrightarrow>
      validateImageFile dec file =
        reject ''Image exceeds maximum safe dimensions (Decompression Bomb protection)'')"
    by (auto simp: validateImageFile_def reject_def split: option.splits)
qed

lemma png_file_passes:
  "0 < fsize png_file" "fsize png_file \<le> MAX_FILE_SIZE" "startsWith (ftype png_file) ''image/''"
  "detectImageType png_file = Some ''image/png''"
  by (simp_all add: png_file_def fsize_def MAX_FILE_SIZE_def startsWith_def detectImageType_eq)

theorem validateImageFile_fails_closed_witness:
  "validateImageFile (\<lambda>_. None) png_file =
     reject ''Image exceeds maximum safe dimensions (Decompression Bomb protection)'' \<and>
   validateImageFile (\<lambda>_. Some \<lparr>bm_width = 15001, bm_height = 1\<rparr>) png_file =
     reject ''Image exceeds maximum safe dimensions (Decompression Bomb protection)'' \<and>
   validateImageFile (\<lambda>_. Some \<lparr>bm_width = 1, bm_height = 15001\<rparr>) png_file =
     reject ''Image exceeds maximum safe dimensions (Decompression Bomb protection)'' \<and>
   validateImageFile (\<lambda>_. Some \<lparr>bm_width = 10000, bm_height = 10000\<rparr>) png_file =
     reject ''Image exceeds maximum safe dimensions (Decompression Bomb protection)''"
  using validateImageFile_fails_closed [of "\<lambda>_. None" png_file]
        validateImageFile_fails_closed [of "\<lambda>_. Some \<lparr>bm_width = 15001, bm_height = 1\<rparr>" png_file]
        validateImageFile_fails_closed [of "\<lambda>_. Some \<lparr>bm_width = 1, bm_height = 15001\<rparr>" png_file]
        validateImageFile_fails_closed [of "\<lambda>_. Some \<lparr>bm_width = 10000, bm_height = 10000\<rparr>" png_file]
  by (simp add: png_file_passes MAX_WIDTH_def MAX_HEIGHT_def MAX_PIXELS_def)

subsection \<open>Declared type against detected type\<close>

lemma take_first: "take n bs = x # xs \<Longrightarrow> take m bs = y # ys \<Longrightarrow> x = y"
  by (cases bs; cases n; cases m) simp_all

lemma detectImageType_jpeg:
  assumes "take 4 (fbytes f) \<in> {[0xFF, 0xD8, 0xFF, 0xE0], [0xFF, 0xD8, 0xFF, 0xE1],
                                 [0xFF, 0xD8, 0xFF, 0xE8], [0xFF, 0xD8, 0xFF, 0xDB]}"
  shows "detectImageType f = Some ''image/jpeg''"
  using assms by (auto simp: detectImageType_eq Let_def)

lemma detectImageType_png:
  assumes "take 8 (fbytes f) = [0x89, 0x50, 0x4E, 0x47, 0x0D, 0x0A, 0x1A, 0x0A]"
  shows "detectImageType f = Some ''image/png''"
  using assms by (auto simp: detectImageType_eq Let_def dest: take_first)

lemma detectImageType_webp:
  assumes "take 4 (fbytes f) = [0x52, 0x49, 0x46, 0x46]"
    "take 4 (drop 8 (fbytes f)) = [0x57, 0x45, 0x42, 0x50]"
  shows "detectImageType f = Some ''image/webp''"
  using assms by (auto simp: detectImageType_eq Let_def dest: take_first)

lemma detectImageType_bmp:
  assumes "take 2 (fbytes f) = [0x42, 0x4D]"
  shows "detectImageType f = Some ''image/bmp''"
  using assms by (auto simp: detectImageType_eq Let_def dest: take_first)

lemma detectImageType_gif:
  assumes "take 6 (fbytes f) \<in> {[0x47, 0x49, 0x46, 0x38, 0x37, 0x61],
                                 [0x47, 0x49, 0x46, 0x38, 0x39, 0x61]}"
  shows "detectImageType f = Some ''image/gif''"
  using assms by (auto simp: detectImageType_eq Let_def dest: take_first)

text \<open>
  Claim C10. \<^verbatim>\<open>validateImageFile\<close> does not compare the declared MIME subtype with the
  detected signature. The detection does not read the declared type at all. For every
  non-empty file within the size limit whose declared type starts with \<^verbatim>\<open>image/\<close>,
  whatever follows the slash, and whose decoded dimensions are within the limits: when the
  leading bytes are one of the four JPEG markers the file is accepted as
  \<^verbatim>\<open>image/jpeg\<close>; when they are the PNG signature, as \<^verbatim>\<open>image/png\<close>; when they are
  RIFF with the WEBP tag at offset 8, as \<^verbatim>\<open>image/webp\<close>; when they are the BMP magic, as
  \<^verbatim>\<open>image/bmp\<close>; when they are one of the two GIF headers, as \<^verbatim>\<open>image/gif\<close>. A PNG
  declared as \<^verbatim>\<open>image/jpeg\<close> is accepted as \<^verbatim>\<open>image/png\<close>, and a JPEG declared as
  \<^verbatim>\<open>image/png\<close> is accepted as \<^verbatim>\<open>image/jpeg\<close>.
\<close>

theorem validateImageFile_no_subtype_agreement:
  "detectImageType (f\<lparr>ftype := declared\<rparr>) = detectImageType f \<and>
   (0 < fsize f \<and> fsize f \<le> MAX_FILE_SIZE \<and> startsWith (ftype f) ''image/'' \<and>
    dec f = Some bitmap \<and> bm_width bitmap \<le> MAX_WIDTH \<and>
    bm_height bitmap \<le> MAX_HEIGHT \<and> bm_width bitmap * bm_height bitmap \<le> MAX_PIXELS
    \<longrightarrow>
      (take 4 (fbytes f) \<in> {[0xFF, 0xD8, 0xFF, 0xE0], [0xFF, 0xD8, 0xFF, 0xE1],
                               [0xFF, 0xD8, 0xFF, 0xE8], [0xFF, 0xD8, 0xFF, 0xDB]} \<longrightarrow>
         validateImageFile dec f =
           \<lparr>isValid = True, error = None, detectedType = Some ''image/jpeg''\<rparr>) \<and>
      (take 8 (fbytes f) = [0x89, 0x50, 0x4E, 0x47, 0x0D, 0x0A, 0x1A, 0x0A] \<longrightarrow>
         validateImageFile dec f =
           \<lparr>isValid = True, error = None, detectedType = Some ''image/png''\<rparr>) \<and>
      (take 4 (fbytes f) = [0x52, 0x49, 0x46, 0x46] \<and>
       take 4 (drop 8 (fbytes f)) = [0x57, 0x45, 0x42, 0x50] \<longrightarrow>
         validateImageFile dec f =
           \<lparr>isValid = True, error = None, detectedType = Some ''image/webp''\<rparr>) \<and>
      (take 2 (fbytes f) = [0x42, 0x4D] \<longrightarrow>
         validateImageFile dec f =
           \<lparr>isValid = True, error = None, detectedType = Some ''image/bmp''\<rparr>) \<and>
      (take 6 (fbytes f) \<in> {[0x47, 0x49, 0x46, 0x38, 0x37, 0x61],
                               [0x47, 0x49, 0x46, 0x38, 0x39, 0x61]} \<longrightarrow>
         validateImageFile dec f =
           \<lparr>isValid = True, error = None, detectedType = Some ''image/gif''\<rparr>))"
proof (intro conjI impI)
  show "detectImageType (f\<lparr>ftype := declared\<rparr>) = detectImageType f"
    by (rule detectImageType_ftype)
next
  assume a: "0 < fsize f \<and> fsize f \<le> MAX_FILE_SIZE \<and> startsWith (ftype f) ''image/'' \<and>
    dec f = Some bitmap \<and> bm_width bitmap \<le> MAX_WIDTH \<and>
    bm_height bitmap \<le> MAX_HEIGHT \<and> bm_width bitmap * bm_height bitmap \<le> MAX_PIXELS"
  then have cd: "checkDimensions dec f"
    unfolding checkDimensions_iff by simp
  have ok: "validateImageFile dec f = \<lparr>isValid = True, error = None, detectedType = Some t\<rparr>"
    if "detectImageType f = Some t" for t
    using a cd that by (simp add: validateImageFile_def)
  {
    assume "take 4 (fbytes f) \<in> {[0xFF, 0xD8, 0xFF, 0xE0], [0xFF, 0xD8, 0xFF, 0xE1],
                               [0xFF, 0xD8, 0xFF, 0xE8], [0xFF, 0xD8, 0xFF, 0xDB]}"
    then show "validateImageFile dec f =
           \<lparr>isValid = True, error = None, detectedType = Some ''image/jpeg''\<rparr>"
      by (intro ok detectImageType_jpeg)
  next
    assume "take 8 (fbytes f) = [0x89, 0x50, 0x4E, 0x47, 0x0D, 0x0A, 0x1A, 0x0A]"
    then show "validateImageFile dec f =
           \<lparr>isValid = True, error = None, detectedType = Some ''image/png''\<rparr>"
      by (intro ok detectImageType_png)
  next
    assume "take 4 (fbytes f) = [0x52, 0x49, 0x46, 0x46] \<and>
       take 4 (drop 8 (fbytes f)) = [0x57, 0x45, 0x42, 0x50]"
    then show "validateImageFile dec f =
           \<lparr>isValid = True, error = None, detectedType = Some ''image/webp''\<rparr>"
      by (intro ok detectImageType_webp) simp_all
  next
    assume "take 2 (fbytes f) = [0x42, 0x4D]"
    then show "validateImageFile dec f =
           \<lparr>isValid = True, error = None, detectedType = Some ''image/bmp''\<rparr>"
      by (intro ok detectImageType_bmp)
  next
    assume "take 6 (fbytes f) \<in> {[0x47, 0x49, 0x46, 0x38, 0x37, 0x61],
                               [0x47, 0x49, 0x46, 0x38, 0x39, 0x61]}"
    then show "validateImageFile dec f =
           \<lparr>isValid = True, error = None, detectedType = Some ''image/gif''\<rparr>"
      by (intro ok detectImageType_gif)
  }
qed

theorem validateImageFile_no_subtype_agreement_witness:
  "validateImageFile (\<lambda>_. Some \<lparr>bm_width = 640, bm_height = 480\<rparr>)
      (png_file\<lparr>ftype := ''image/jpeg''\<rparr>) =
     \<lparr>isValid = True, error = None, detectedType = Some ''image/png''\<rparr> \<and>
   validateImageFile (\<lambda>_. Some \<lparr>bm_width = 640, bm_height = 480\<rparr>)
      \<lparr>fbytes = [0xFF, 0xD8, 0xFF, 0xE0, 0, 0x10, 0x4A, 0x46], ftype = ''image/png''\<rparr> =
     \<lparr>isValid = True, error = None, detectedType = Some ''image/jpeg''\<rparr>"
  using validateImageFile_no_subtype_agreement
      [where f = "png_file\<lparr>ftype := ''image/jpeg''\<rparr>"
         and dec = "\<lambda>_. Some \<lparr>bm_width = 640, bm_height = 480\<rparr>"
         and bitmap = "\<lparr>bm_width = 640, bm_height = 480\<rparr>"]
    validateImageFile_no_subtype_agreement
      [where f = "\<lparr>fbytes = [0xFF, 0xD8, 0xFF, 0xE0, 0, 0x10, 0x4A, 0x46], ftype = ''image/png''\<rparr>"
         and dec = "\<lambda>_. Some \<lparr>bm_width = 640, bm_height = 480\<rparr>"
         and bitmap = "\<lparr>bm_width = 640, bm_height = 480\<rparr>"]
  by (simp add: png_file_def fsize_def startsWith_def MAX_FILE_SIZE_def MAX_WIDTH_def MAX_HEIGHT_def
        MAX_PIXELS_def)

section \<open>Properties of the BMP encoder\<close>

subsection \<open>Sequential stores fill the buffer\<close>

lemma length_write_bytes [simp]: "length (write_bytes buf off bs) = length buf"
  by (induction bs arbitrary: buf off) auto

lemma write_bytes_at_end:
  "length bs \<le> length rest \<Longrightarrow>
   write_bytes (pre @ rest) (length pre) bs = pre @ bs @ drop (length bs) rest"
proof (induction bs arbitrary: pre rest)
  case Nil
  then show ?case by simp
next
  case (Cons b bs)
  then obtain r rest' where r: "rest = r # rest'" by (cases rest) auto
  have "write_bytes (pre @ rest) (length pre) (b # bs)
        = write_bytes ((pre @ [b]) @ rest') (length (pre @ [b])) bs"
    by (simp add: r)
  also have "\<dots> = (pre @ [b]) @ bs @ drop (length bs) rest'"
    using Cons.prems r by (intro Cons.IH) simp
  finally show ?case by (simp add: r)
qed

lemma fold_chunks:
  assumes wr: "\<And>k pre rest. k < n \<Longrightarrow> L \<le> length rest \<Longrightarrow>
            wr k (pre @ rest, length pre) = (pre @ chunk k @ drop L rest, length pre + L)"
      and len: "\<And>k. k < n \<Longrightarrow> length (chunk k) = L"
      and room: "n * L \<le> length rest"
  shows "fold wr [0..<n] (pre @ rest, length pre)
         = (pre @ concat (map chunk [0..<n]) @ drop (n * L) rest, length pre + n * L)"
  using assms
proof (induction n)
  case 0
  then show ?case by simp
next
  case (Suc n)
  have IH: "fold wr [0..<n] (pre @ rest, length pre)
         = (pre @ concat (map chunk [0..<n]) @ drop (n * L) rest, length pre + n * L)"
    using Suc.prems by (intro Suc.IH) auto
  have lc: "length (concat (map chunk [0..<n])) = n * L"
    using Suc.prems(2) by (induction n) auto
  let ?pre = "pre @ concat (map chunk [0..<n])"
  have "fold wr [0..<Suc n] (pre @ rest, length pre)
        = wr n (?pre @ drop (n * L) rest, length ?pre)"
    by (simp add: IH lc)
  also have "\<dots> = (?pre @ chunk n @ drop L (drop (n * L) rest), length ?pre + L)"
    using Suc.prems(3) by (intro Suc.prems(1)) auto
  finally show ?case by (simp add: lc add.commute)
qed

lemma length_concat_chunks:
  "(\<And>k. k < n \<Longrightarrow> length (chunk k) = L) \<Longrightarrow> length (concat (map chunk [0..<n])) = n * L"
  by (induction n) auto

lemma nth_concat_chunks:
  assumes "\<And>k. k < n \<Longrightarrow> length (chunk k) = L" "y < n" "j < L"
  shows "concat (map chunk [0..<n]) ! (y * L + j) = chunk y ! j"
  using assms
proof (induction n)
  case 0
  then show ?case by simp
next
  case (Suc n)
  have lc: "length (concat (map chunk [0..<n])) = n * L"
    using Suc.prems(1) by (intro length_concat_chunks) auto
  show ?case
  proof (cases "y < n")
    case True
    then have "Suc y * L \<le> n * L" by (intro mult_le_mono1) simp
    with Suc.prems(3) have "y * L + j < n * L" by simp
    with True Suc show ?thesis by (simp add: nth_append lc)
  next
    case False
    with Suc.prems(2) have "y = n" by simp
    with Suc.prems show ?thesis by (simp add: nth_append lc)
  qed
qed

lemma write_bytes_in_prefix:
  "byteOffset + length bs \<le> length pre \<Longrightarrow>
   write_bytes (pre @ rest) byteOffset bs = write_bytes pre byteOffset bs @ rest"
  by (induction bs arbitrary: pre byteOffset) (auto simp: list_update_append1)

lemma length_bytes16 [simp]: "length (bytes16 w) = 2"
  by (simp add: bytes16_def)

lemma length_bytes32 [simp]: "length (bytes32 w) = 4"
  by (simp add: bytes32_def)

lemma length_write_headers [simp]: "length (write_headers view fs w h) = length view"
  by (simp add: write_headers_def setUint16_def setUint32_def setInt32_def)

lemma write_headers_in_prefix:
  "54 \<le> length pre \<Longrightarrow>
   write_headers (pre @ rest) fs w h = write_headers pre fs w h @ rest"
  by (simp add: write_headers_def setUint16_def setUint32_def setInt32_def write_bytes_in_prefix)

lemma pixel_body_chunk:
  assumes "3 \<le> length rest"
  shows "pixel_body data width y x (pre @ rest, length pre)
     = (pre @ bmp_pixel data width y x @ drop 3 rest, length pre + 3)"
proof -
  have 1: "pixel_body data width y x (pre @ rest, length pre)
        = (write_bytes (pre @ rest) (length pre) (bmp_pixel data width y x), length pre + 3)"
    by (simp add: pixel_body_def setUint8_def bmp_pixel_def Let_def)
  have 2: "write_bytes (pre @ rest) (length pre) (bmp_pixel data width y x)
        = pre @ bmp_pixel data width y x @ drop (length (bmp_pixel data width y x)) rest"
    using assms by (intro write_bytes_at_end) (simp add: bmp_pixel_def)
  have 3: "length (bmp_pixel data width y x) = 3"
    by (simp add: bmp_pixel_def)
  show ?thesis unfolding 1 2 3 ..
qed

lemma padding_body_chunk:
  "1 \<le> length rest \<Longrightarrow>
   padding_body p (pre @ rest, length pre) = (pre @ [0] @ drop 1 rest, length pre + 1)"
  using write_bytes_at_end [of "[0]" rest pre]
  by (simp add: padding_body_def setUint8_def)

lemma concat_zeros: "concat (map (\<lambda>p. [0::byte]) [0..<n]) = replicate n 0"
  by (induction n) (auto simp: replicate_append_same)

lemma length_bmp_row [simp]: "length (bmp_row data width y) = width * 3 + bmp_padding width"
  using length_concat_chunks [of width "bmp_pixel data width y" 3]
  by (simp add: bmp_row_def bmp_pixel_def)

lemma row_body_chunk:
  assumes "width * 3 + bmp_padding width \<le> length rest"
  shows "row_body data width (bmp_padding width) y (pre @ rest, length pre)
         = (pre @ bmp_row data width y @ drop (width * 3 + bmp_padding width) rest,
            length pre + (width * 3 + bmp_padding width))"
proof -
  let ?px = "concat (map (bmp_pixel data width y) [0..<width])"
  have lpx: "length ?px = width * 3"
    by (intro length_concat_chunks) (simp add: bmp_pixel_def)
  have 1: "fold (pixel_body data width y) [0..<width] (pre @ rest, length pre)
           = (pre @ ?px @ drop (width * 3) rest, length pre + width * 3)"
    using assms by (intro fold_chunks pixel_body_chunk) (simp_all add: bmp_pixel_def)
  have 2: "fold padding_body [0..<bmp_padding width]
             ((pre @ ?px) @ drop (width * 3) rest, length (pre @ ?px))
           = ((pre @ ?px) @ concat (map (\<lambda>p. [0]) [0..<bmp_padding width])
                @ drop (bmp_padding width * 1) (drop (width * 3) rest),
              length (pre @ ?px) + bmp_padding width * 1)"
    using assms by (intro fold_chunks) (simp_all add: padding_body_chunk)
  show ?thesis
    using 2 by (simp add: row_body_def 1 lpx map_replicate_const bmp_row_def add.commute)
qed

lemma encodeBMP_run_eq:
  "encodeBMP_run imageData =
     (write_headers (replicate 54 0) (bmp_fileSize (img_width imageData) (img_height imageData))
         (img_width imageData) (img_height imageData)
        @ concat (map (bmp_row (img_data imageData) (img_width imageData)) [0..<img_height imageData]),
      bmp_fileSize (img_width imageData) (img_height imageData))"
proof -
  let ?w = "img_width imageData" and ?h = "img_height imageData" and ?d = "img_data imageData"
  let ?L = "?w * 3 + bmp_padding ?w"
  let ?hdr = "write_headers (replicate 54 0) (bmp_fileSize ?w ?h) ?w ?h"
  have buf: "replicate (bmp_fileSize ?w ?h) (0::byte) = replicate 54 0 @ replicate (?h * ?L) 0"
    by (simp add: bmp_fileSize_def replicate_add mult.commute)
  have hdr: "write_headers (replicate (bmp_fileSize ?w ?h) 0) (bmp_fileSize ?w ?h) ?w ?h
             = ?hdr @ replicate (?h * ?L) 0"
    unfolding buf by (intro write_headers_in_prefix) simp
  have lh: "length ?hdr = 54" by simp
  have "fold (row_body ?d ?w (bmp_padding ?w)) [0..<?h] (?hdr @ replicate (?h * ?L) 0, length ?hdr)
        = (?hdr @ concat (map (bmp_row ?d ?w) [0..<?h]) @ drop (?h * ?L) (replicate (?h * ?L) 0),
           length ?hdr + ?h * ?L)"
    by (intro fold_chunks row_body_chunk) simp_all
  then have "fold (row_body ?d ?w (bmp_padding ?w)) [0..<?h] (?hdr @ replicate (?h * ?L) 0, 54)
        = (?hdr @ concat (map (bmp_row ?d ?w) [0..<?h]), bmp_fileSize ?w ?h)"
    unfolding lh by (simp add: bmp_fileSize_def mult.commute)
  then show ?thesis
    unfolding encodeBMP_run_def Let_def hdr .
qed

lemma b16_consts: "rev (bytes16 0x424D) = [0x42, 0x4D]" "bytes16 0 = [0, 0]" "bytes16 1 = [1, 0]"
  "bytes16 24 = [24, 0]"
  by (simp_all add: bytes16_def)

lemma b32_consts: "bytes32 54 = [54, 0, 0, 0]" "bytes32 40 = [40, 0, 0, 0]" "bytes32 0 = [0, 0, 0, 0]"
  "bytes32 2835 = [0x13, 0x0B, 0, 0]"
  by (simp_all add: bytes32_def)

lemma write_bytes_fill:
  "length pre = byteOffset \<Longrightarrow> length bs \<le> k \<Longrightarrow>
   write_bytes (pre @ replicate k 0) byteOffset bs = (pre @ bs) @ replicate (k - length bs) 0"
  using write_bytes_at_end [of bs "replicate k 0" pre] by simp

lemma write_headers_eq:
  "write_headers (replicate 54 0) fileSize width height =
     rev (bytes16 0x424D) @ bytes32 (of_nat fileSize) @ bytes16 0 @ bytes16 0 @ bytes32 54 @
     bytes32 40 @ bytes32 (of_nat width) @ bytes32 (of_int (- int height)) @ bytes16 1 @ bytes16 24 @
     bytes32 0 @ bytes32 0 @ bytes32 2835 @ bytes32 2835 @ bytes32 0 @ bytes32 0"
proof -
  define filled where "filled pre k = pre @ replicate k (0::byte)" for pre k
  have wr: "write_bytes (filled pre k) byteOffset bs = filled (pre @ bs) (k - length bs)"
    if "length pre = byteOffset" "length bs \<le> k" for pre k byteOffset bs
    using that by (simp add: filled_def write_bytes_fill)
  have start: "replicate 54 (0::byte) = filled [] 54"
    by (simp add: filled_def)
  have stop: "filled pre 0 = pre" for pre
    by (simp add: filled_def)
  show ?thesis
    unfolding write_headers_def Let_def setUint16_def setUint32_def setInt32_def start
    by (simp add: wr stop)
qed

subsection \<open>Header fields\<close>

lemma word_of_bytes32_bytes32: "word_of_bytes32 (bytes32 w) = w"
  unfolding bytes32_def word_of_bytes32.simps
proof (rule bit_eqI)
  fix n assume "possible_bit TYPE(32 word) n"
  then have n: "n < 32" by (simp add: possible_bit_word)
  consider "n < 8" | "8 \<le> n" "n < 16" | "16 \<le> n" "n < 24" | "24 \<le> n"
    by linarith
  then show "bit (ucast (ucast w :: byte) OR push_bit 8 (ucast (ucast (drop_bit 8 w) :: byte)) OR
                push_bit 16 (ucast (ucast (drop_bit 16 w) :: byte)) OR
                push_bit 24 (ucast (ucast (drop_bit 24 w) :: byte)) :: 32 word) n = bit w n"
    using n by cases (auto simp: bit_simps)
qed

lemma sint_neg_height:
  assumes "h \<le> 2 ^ 31"
  shows "sint (of_int (- int h) :: 32 word) = - int h"
proof -
  have "sint (word_of_int (- int h) :: 32 word) = signed_take_bit (LENGTH(32) - 1) (- int h)"
    by (rule sint_sbintrunc')
  also have "\<dots> = - int h"
    using assms by (intro signed_take_bit_int_eq_self) auto
  finally show ?thesis .
qed

lemma sint_width:
  assumes "w < 2 ^ 31"
  shows "sint (of_int (int w) :: 32 word) = int w"
proof -
  have "sint (word_of_int (int w) :: 32 word) = signed_take_bit (LENGTH(32) - 1) (int w)"
    by (rule sint_sbintrunc')
  also have "\<dots> = int w"
    using assms by (intro signed_take_bit_int_eq_self) auto
  finally show ?thesis .
qed

lemma encodeBMP_eq:
  "encodeBMP imageData =
     ([0x42, 0x4D] @ bytes32 (of_nat (bmp_fileSize (img_width imageData) (img_height imageData))) @
      [0, 0, 0, 0, 54, 0, 0, 0]) @
     ([40, 0, 0, 0] @ bytes32 (of_int (int (img_width imageData))) @
      bytes32 (of_int (- int (img_height imageData))) @
      [1, 0, 24, 0, 0, 0, 0, 0, 0, 0, 0, 0, 0x13, 0x0B, 0, 0, 0x13, 0x0B, 0, 0,
       0, 0, 0, 0, 0, 0, 0, 0]) @
     concat (map (bmp_row (img_data imageData) (img_width imageData)) [0..<img_height imageData])"
  unfolding encodeBMP_def encodeBMP_run_eq fst_conv write_headers_eq b16_consts b32_consts
  by simp

lemma bmp_row_mod4: "(3 * W + (4 - (3 * W) mod 4) mod 4) mod 4 = (0::nat)"
proof -
  define r where "r = (3 * W) mod 4"
  have "r < 4" by (simp add: r_def)
  then consider "r = 0" | "r = 1" | "r = 2" | "r = 3" by linarith
  then have "(r + (4 - r) mod 4) mod 4 = 0" by cases simp_all
  moreover have "(3 * W + (4 - r) mod 4) mod 4 = (r + (4 - r) mod 4) mod 4"
    unfolding r_def by (simp add: mod_add_left_eq)
  ultimately show ?thesis by (simp add: r_def)
qed

lemma bmp_row_pixel:
  assumes "x < width" "c < 3"
  shows "bmp_row data width y ! (3 * x + c) = bmp_pixel data width y x ! c"
proof -
  have l: "length (concat (map (bmp_pixel data width y) [0..<width])) = width * 3"
    by (intro length_concat_chunks) (simp add: bmp_pixel_def)
  have "Suc x * 3 \<le> width * 3" using assms(1) by (intro mult_le_mono1) simp
  with assms(2) have lt: "3 * x + c < width * 3" by simp
  have "concat (map (bmp_pixel data width y) [0..<width]) ! (x * 3 + c) = bmp_pixel data width y x ! c"
    using assms by (intro nth_concat_chunks) (simp_all add: bmp_pixel_def)
  then show ?thesis
    using lt by (simp add: bmp_row_def nth_append l mult.commute)
qed

lemma bmp_row_padding:
  assumes "p < bmp_padding width"
  shows "bmp_row data width y ! (3 * width + p) = 0"
proof -
  have l: "length (concat (map (bmp_pixel data width y) [0..<width])) = width * 3"
    by (intro length_concat_chunks) (simp add: bmp_pixel_def)
  show ?thesis using assms by (simp add: bmp_row_def nth_append l mult.commute)
qed

lemma encodeBMP_nth_body:
  assumes "y < img_height imageData" "j < img_width imageData * 3 + bmp_padding (img_width imageData)"
  shows "encodeBMP imageData ! (54 + y * (img_width imageData * 3 + bmp_padding (img_width imageData)) + j)
         = bmp_row (img_data imageData) (img_width imageData) y ! j"
proof -
  let ?L = "img_width imageData * 3 + bmp_padding (img_width imageData)"
  have "concat (map (bmp_row (img_data imageData) (img_width imageData)) [0..<img_height imageData])
           ! (y * ?L + j) = bmp_row (img_data imageData) (img_width imageData) y ! j"
    using assms by (intro nth_concat_chunks) simp_all
  then show ?thesis
    unfolding encodeBMP_def encodeBMP_run_eq fst_conv
    by (simp add: nth_append add.assoc)
qed

lemma getInt32_fields:
  "getInt32 (encodeBMP imageData) 18 = sint (of_int (int (img_width imageData)) :: 32 word)"
  "getInt32 (encodeBMP imageData) 22 = sint (of_int (- int (img_height imageData)) :: 32 word)"
  unfolding encodeBMP_eq getInt32_def
  by (simp_all add: word_of_bytes32_bytes32 [unfolded bytes32_def] bytes32_def del: word_of_bytes32.simps)

subsection \<open>The layout of the file\<close>

text \<open>
  Claim C5. For every \<^verbatim>\<open>ImageData\<close> of width W and height H, with
  \<open>pad = (4 - (3 * W) mod 4) mod 4\<close>, \<^verbatim>\<open>encodeBMP\<close> produces exactly
  \<open>54 + H * (3 * W + pad)\<close> bytes and its write offset ends exactly at the end of the buffer.
  The first 14 bytes are the file header (the signature BM, the file size, the offset 54 of
  the pixel data), the next 40 the info header, whose height field reads back as the negative
  value \<open>- H\<close> (top-down rows). Row y, counted from the top, starts at
  \<open>54 + y * (3 * W + pad)\<close>; pixel x of the row is the three bytes blue, green, red of the
  source pixel (its alpha byte is not written), and the row ends with pad zero bytes, so that
  its length is a multiple of 4.
\<close>

theorem encodeBMP_layout:
  "(let W = img_width imageData; H = img_height imageData; data = img_data imageData;
        pad = (4 - (3 * W) mod 4) mod 4; row = 3 * W + pad;
        out = encodeBMP imageData
    in length out = 54 + H * row \<and>
       snd (encodeBMP_run imageData) = length out \<and>
       row mod 4 = 0 \<and>
       take 14 out = [0x42, 0x4D] @ bytes32 (of_nat (54 + H * row)) @ [0, 0, 0, 0, 54, 0, 0, 0] \<and>
       take 40 (drop 14 out) =
         [40, 0, 0, 0] @ bytes32 (of_int (int W)) @ bytes32 (of_int (- int H)) @
         [1, 0, 24, 0, 0, 0, 0, 0, 0, 0, 0, 0, 0x13, 0x0B, 0, 0, 0x13, 0x0B, 0, 0,
          0, 0, 0, 0, 0, 0, 0, 0] \<and>
       (W < 2 ^ 31 \<longrightarrow> getInt32 out 18 = int W) \<and>
       (H \<le> 2 ^ 31 \<longrightarrow> getInt32 out 22 = - int H) \<and>
       (\<forall>y<H. \<forall>x<W.
          out ! (54 + y * row + 3 * x) = data_at data (4 * (y * W + x) + 2) \<and>
          out ! (54 + y * row + 3 * x + 1) = data_at data (4 * (y * W + x) + 1) \<and>
          out ! (54 + y * row + 3 * x + 2) = data_at data (4 * (y * W + x))) \<and>
       (\<forall>y<H. \<forall>p<pad. out ! (54 + y * row + 3 * W + p) = 0))"
proof -
  let ?W = "img_width imageData" and ?H = "img_height imageData" and ?data = "img_data imageData"
  let ?row = "3 * ?W + (4 - (3 * ?W) mod 4) mod 4"
  let ?out = "encodeBMP imageData"
  have row: "?W * 3 + bmp_padding ?W = ?row"
    by (simp add: bmp_padding_def mult.commute)
  have fs: "bmp_fileSize ?W ?H = 54 + ?H * ?row"
    by (simp add: bmp_fileSize_def bmp_padding_def mult.commute)
  have lbody: "length (concat (map (bmp_row ?data ?W) [0..<?H])) = ?H * ?row"
    by (intro length_concat_chunks) (simp add: row)
  have len: "length ?out = 54 + ?H * ?row"
    unfolding encodeBMP_def encodeBMP_run_eq fst_conv by (simp add: lbody)
  have off: "snd (encodeBMP_run imageData) = length ?out"
    unfolding len by (simp add: encodeBMP_run_eq fs)
  have fh: "take 14 ?out = [0x42, 0x4D] @ bytes32 (of_nat (54 + ?H * ?row)) @ [0, 0, 0, 0, 54, 0, 0, 0]"
    unfolding encodeBMP_eq fs by simp
  have ih: "take 40 (drop 14 ?out) =
         [40, 0, 0, 0] @ bytes32 (of_int (int ?W)) @ bytes32 (of_int (- int ?H)) @
         [1, 0, 24, 0, 0, 0, 0, 0, 0, 0, 0, 0, 0x13, 0x0B, 0, 0, 0x13, 0x0B, 0, 0,
          0, 0, 0, 0, 0, 0, 0, 0]"
    unfolding encodeBMP_eq fs by simp
  have w: "getInt32 ?out 18 = int ?W" if "?W < 2 ^ 31"
    using that by (simp only: getInt32_fields sint_width)
  have h: "getInt32 ?out 22 = - int ?H" if "?H \<le> 2 ^ 31"
    using that by (simp only: getInt32_fields sint_neg_height)
  have px: "?out ! (54 + y * ?row + 3 * x) = data_at ?data (4 * (y * ?W + x) + 2) \<and>
            ?out ! (54 + y * ?row + 3 * x + 1) = data_at ?data (4 * (y * ?W + x) + 1) \<and>
            ?out ! (54 + y * ?row + 3 * x + 2) = data_at ?data (4 * (y * ?W + x))"
    if "y < ?H" "x < ?W" for y x
  proof -
    have "Suc x * 3 \<le> ?W * 3" using that(2) by (intro mult_le_mono1) simp
    then have b: "3 * x + c < ?W * 3 + bmp_padding ?W" if "c < 3" for c
      using that by simp
    have "?out ! (54 + y * ?row + (3 * x + c)) = bmp_pixel ?data ?W y x ! c" if "c < 3" for c
      using encodeBMP_nth_body [OF \<open>y < ?H\<close> b [OF that]] bmp_row_pixel [OF \<open>x < ?W\<close> that]
      by (simp only: row)
    from this [of 0] this [of 1] this [of 2] show ?thesis
      by (simp add: bmp_pixel_def add.assoc mult.commute)
  qed
  have pd: "?out ! (54 + y * ?row + 3 * ?W + p) = 0"
    if "y < ?H" "p < (4 - (3 * ?W) mod 4) mod 4" for y p
  proof -
    have p: "p < bmp_padding ?W" using that(2) by (simp add: bmp_padding_def mult.commute)
    then have "3 * ?W + p < ?W * 3 + bmp_padding ?W" by simp
    from encodeBMP_nth_body [OF \<open>y < ?H\<close> this] bmp_row_padding [OF p]
    show ?thesis by (simp only: row add.assoc)
  qed
  show ?thesis
    unfolding Let_def
    using len off bmp_row_mod4 [of ?W] fh ih w h px pd by blast
qed

theorem encodeBMP_layout_witness:
  "length (encodeBMP bmp_sample) = 70 \<and>
   take 2 (encodeBMP bmp_sample) = [0x42, 0x4D] \<and>
   getInt32 (encodeBMP bmp_sample) 18 = 2 \<and>
   getInt32 (encodeBMP bmp_sample) 22 = - 2 \<and>
   encodeBMP bmp_sample ! 65 = 12 \<and> encodeBMP bmp_sample ! 66 = 11 \<and>
   encodeBMP bmp_sample ! 67 = 10 \<and>
   encodeBMP bmp_sample ! 68 = 0 \<and> encodeBMP bmp_sample ! 69 = 0"
proof -
  note L = encodeBMP_layout [of bmp_sample, unfolded Let_def]
  have dims: "img_width bmp_sample = 2" "img_height bmp_sample = 2"
    by (simp_all add: bmp_sample_def)
  have len: "length (encodeBMP bmp_sample) = 70"
    using L by (simp add: dims)
  have "take 14 (encodeBMP bmp_sample) = [0x42, 0x4D] @ bytes32 (of_nat 70) @ [0, 0, 0, 0, 54, 0, 0, 0]"
    using L by (simp add: dims)
  then have "take 2 (take 14 (encodeBMP bmp_sample)) = [0x42, 0x4D]"
    by simp
  then have magic: "take 2 (encodeBMP bmp_sample) = [0x42, 0x4D]"
    by simp
  have w: "getInt32 (encodeBMP bmp_sample) 18 = 2" and h: "getInt32 (encodeBMP bmp_sample) 22 = - 2"
    using L by (simp_all add: dims)
  have px: "\<forall>y<2. \<forall>x<2.
          encodeBMP bmp_sample ! (54 + y * 8 + 3 * x) = data_at (img_data bmp_sample) (4 * (y * 2 + x) + 2) \<and>
          encodeBMP bmp_sample ! (54 + y * 8 + 3 * x + 1) = data_at (img_data bmp_sample) (4 * (y * 2 + x) + 1) \<and>
          encodeBMP bmp_sample ! (54 + y * 8 + 3 * x + 2) = data_at (img_data bmp_sample) (4 * (y * 2 + x))"
    using L by (simp add: dims)
  have pd: "\<forall>y<2. \<forall>p<2. encodeBMP bmp_sample ! (54 + y * 8 + 3 * 2 + p) = 0"
    using L by (simp add: dims)
  from px [rule_format, of 1 1] pd [rule_format, of 1 0] pd [rule_format, of 1 1] len magic w h
  show ?thesis
    by (simp add: bmp_sample_def data_at_def)
qed

section \<open>Properties of the image processing\<close>

subsection \<open>Rounding to doubles\<close>

lemma pow2_add1: "pow2 (k + 1) = 2 * pow2 k"
proof (cases "0 \<le> k")
  case True
  then have "nat (k + 1) = Suc (nat k)" by simp
  with True show ?thesis by (simp add: pow2_def)
next
  case False
  then have "nat (- k) = Suc (nat (- (k + 1)))" by simp
  with False show ?thesis by (simp add: pow2_def)
qed

lemma pow2_pos: "0 < pow2 k"
  by (simp add: pow2_def)

lemma pow2_mono: "a \<le> b \<Longrightarrow> pow2 a \<le> pow2 b"
proof (induction b rule: int_ge_induct)
  case base
  show ?case by simp
next
  case (step i)
  from pow2_pos [of i] have "pow2 i \<le> pow2 (i + 1)" unfolding pow2_add1 by simp
  with step.IH show ?case by simp
qed

lemma expo_bounds: "0 < x \<Longrightarrow> pow2 (expo x) \<le> x \<and> x < pow2 (expo x + 1)"
proof (induction x rule: expo.induct)
  case (1 x)
  show ?case
  proof (cases "2 \<le> x")
    case True
    with "1.prems" have e: "expo x = expo (x / 2) + 1" by (subst expo.simps) simp
    from "1.IH"(1) "1.prems" True have "pow2 (expo (x / 2)) \<le> x / 2 \<and> x / 2 < pow2 (expo (x / 2) + 1)"
      by simp
    then show ?thesis unfolding e pow2_add1 by simp
  next
    case False
    show ?thesis
    proof (cases "x < 1")
      case True
      with "1.prems" False have e: "expo x = expo (x * 2) - 1" by (subst expo.simps) simp
      from "1.IH"(2) "1.prems" False True
      have "pow2 (expo (x * 2)) \<le> x * 2 \<and> x * 2 < pow2 (expo (x * 2) + 1)" by simp
      moreover have "pow2 (expo (x * 2)) = 2 * pow2 (expo (x * 2) - 1)"
        using pow2_add1 [of "expo (x * 2) - 1"] by simp
      ultimately show ?thesis unfolding e pow2_add1 by simp
    next
      case F2: False
      with "1.prems" False have e: "expo x = 0" by (subst expo.simps) simp
      show ?thesis unfolding e using False F2 by (simp add: pow2_def)
    qed
  qed
qed

lemma round_even_of_int: "round_even (of_int m) = m"
  by (simp add: round_even_def)

lemma fl64_of_int:
  assumes "\<bar>n\<bar> < 2 ^ 53"
  shows "fl64 (of_int n) = of_int n"
proof (cases "n = 0")
  case True
  then show ?thesis by (simp add: fl64_def)
next
  case False
  define e where "e = expo \<bar>of_int n :: real\<bar>"
  have ax: "1 \<le> \<bar>of_int n :: real\<bar>" using False by (simp flip: of_int_abs)
  then have "0 < \<bar>of_int n :: real\<bar>" by linarith
  from expo_bounds [OF this]
  have lo: "pow2 e \<le> \<bar>of_int n\<bar>" and hi: "\<bar>of_int n :: real\<bar> < pow2 (e + 1)"
    unfolding e_def by simp_all
  have e0: "0 \<le> e"
  proof (rule ccontr)
    assume "\<not> 0 \<le> e"
    then have "e + 1 \<le> 0" by simp
    from pow2_mono [OF this] have "pow2 (e + 1) \<le> 1" by (simp add: pow2_def)
    with hi ax show False by linarith
  qed
  have e52: "e \<le> 52"
  proof (rule ccontr)
    assume "\<not> e \<le> 52"
    then have "53 \<le> e" by simp
    from pow2_mono [OF this] have "2 ^ 53 \<le> pow2 e" by (simp add: pow2_def)
    moreover have "\<bar>of_int n :: real\<bar> < 2 ^ 53"
      using assms by (metis of_int_abs of_int_less_numeral_power_cancel_iff)
    ultimately show False using lo by linarith
  qed
  define k where "k = nat (52 - e)"
  have ulp: "pow2 (e - 52) = 1 / 2 ^ k"
  proof (cases "e = 52")
    case True
    then show ?thesis by (simp add: pow2_def k_def)
  next
    case False
    with e52 have "\<not> 0 \<le> e - 52" by simp
    then show ?thesis by (simp add: pow2_def k_def)
  qed
  have q: "of_int n / pow2 (e - 52) = (of_int (n * 2 ^ k) :: real)"
    unfolding ulp by simp
  have "fl64 (of_int n) = of_int (round_even (of_int n / pow2 (e - 52))) * pow2 (e - 52)"
    using False e0 by (simp add: fl64_def Let_def e_def [symmetric] max_def)
  also have "round_even (of_int n / pow2 (e - 52)) = n * 2 ^ k"
    unfolding q by (rule round_even_of_int)
  also have "of_int (n * 2 ^ k) * pow2 (e - 52) = of_int (n * 2 ^ k) * (1 / 2 ^ k)"
    unfolding ulp ..
  also have "\<dots> = of_int n" by simp
  finally show ?thesis .
qed

lemma pow2_less: "a < b \<Longrightarrow> pow2 a < pow2 b"
proof -
  assume "a < b"
  then have "a + 1 \<le> b" by simp
  from pow2_mono [OF this] have "2 * pow2 a \<le> pow2 b" unfolding pow2_add1 .
  with pow2_pos [of a] show ?thesis by linarith
qed

lemma pow2_shift: "pow2 (e - 52) * 2 ^ 52 = pow2 e"
proof -
  have "pow2 (k + int n) = pow2 k * 2 ^ n" for k n
  proof (induction n)
    case 0
    show ?case by simp
  next
    case (Suc n)
    have "k + int (Suc n) = (k + int n) + 1" by simp
    then have "pow2 (k + int (Suc n)) = pow2 ((k + int n) + 1)" by (rule arg_cong)
    also have "\<dots> = 2 * pow2 (k + int n)" by (rule pow2_add1)
    finally show ?case using Suc by simp
  qed
  from this [of "e - 52" 52] show ?thesis by simp
qed

lemma expo_unique:
  assumes "0 < x" "pow2 k \<le> x" "x < pow2 (k + 1)"
  shows "expo x = k"
proof (rule ccontr)
  assume ne: "expo x \<noteq> k"
  from expo_bounds [OF assms(1)] have b: "pow2 (expo x) \<le> x" "x < pow2 (expo x + 1)" by simp_all
  show False
  proof (cases "expo x < k")
    case True
    then have "expo x + 1 \<le> k" by simp
    from pow2_mono [OF this] b(2) assms(2) show False by linarith
  next
    case False
    with ne have "k + 1 \<le> expo x" by simp
    from pow2_mono [OF this] b(1) assms(3) show False by linarith
  qed
qed

lemma round_even_bounds: "\<lfloor>y\<rfloor> \<le> round_even y \<and> round_even y \<le> \<lfloor>y\<rfloor> + 1"
  by (simp add: round_even_def Let_def)

lemma round_even_mono:
  assumes "y \<le> z"
  shows "round_even y \<le> round_even z"
proof (cases "\<lfloor>y\<rfloor> = \<lfloor>z\<rfloor>")
  case False
  with assms have "\<lfloor>y\<rfloor> < \<lfloor>z\<rfloor>" using floor_mono [OF assms] by linarith
  with round_even_bounds [of y] round_even_bounds [of z] show ?thesis by linarith
next
  case True
  with assms have "y - of_int \<lfloor>y\<rfloor> \<le> z - of_int \<lfloor>z\<rfloor>" by simp
  with True show ?thesis by (auto simp: round_even_def Let_def)
qed

lemma fl64_normal:
  assumes "pow2 (- 1022) \<le> x"
  shows "fl64 x = of_int (round_even (x / pow2 (expo x - 52))) * pow2 (expo x - 52)"
    and "- 1022 \<le> expo x"
    and "2 ^ 52 \<le> round_even (x / pow2 (expo x - 52))"
    and "round_even (x / pow2 (expo x - 52)) \<le> 2 ^ 53"
proof -
  from assms pow2_pos [of "- 1022"] have pos: "0 < x" by linarith
  from expo_bounds [OF pos] have b: "pow2 (expo x) \<le> x" "x < pow2 (expo x + 1)" by simp_all
  show e: "- 1022 \<le> expo x"
  proof (rule ccontr)
    assume "\<not> - 1022 \<le> expo x"
    then have "expo x + 1 \<le> - 1022" by simp
    from pow2_mono [OF this] b(2) assms show False by linarith
  qed
  from pos e show "fl64 x = of_int (round_even (x / pow2 (expo x - 52))) * pow2 (expo x - 52)"
    by (simp add: fl64_def Let_def max_def)
  define u where "u = pow2 (expo x - 52)"
  have u: "0 < u" unfolding u_def by (rule pow2_pos)
  have lo: "u * 2 ^ 52 = pow2 (expo x)" unfolding u_def by (rule pow2_shift)
  have hi: "u * 2 ^ 53 = pow2 (expo x + 1)" unfolding pow2_add1 lo [symmetric] by simp
  from b(1) lo u have "2 ^ 52 \<le> x / u" by (simp add: pos_le_divide_eq mult.commute)
  from round_even_mono [OF this] have "round_even (of_int (2 ^ 52)) \<le> round_even (x / u)" by simp
  then show "2 ^ 52 \<le> round_even (x / pow2 (expo x - 52))"
    unfolding round_even_of_int u_def by simp
  from b(2) hi u have "x / u \<le> 2 ^ 53" by (simp add: pos_divide_le_eq mult.commute)
  from round_even_mono [OF this] have "round_even (x / u) \<le> round_even (of_int (2 ^ 53))" by simp
  then show "round_even (x / pow2 (expo x - 52)) \<le> 2 ^ 53"
    unfolding round_even_of_int u_def by simp
qed

lemma fl64_binade:
  assumes "pow2 (- 1022) \<le> x"
  shows "pow2 (expo x) \<le> fl64 x \<and> fl64 x \<le> pow2 (expo x + 1)"
proof -
  define u where "u = pow2 (expo x - 52)"
  define m where "m = round_even (x / u)"
  have u: "0 < u" unfolding u_def by (rule pow2_pos)
  have lo: "u * 2 ^ 52 = pow2 (expo x)" unfolding u_def by (rule pow2_shift)
  have hi: "u * 2 ^ 53 = pow2 (expo x + 1)" unfolding pow2_add1 lo [symmetric] by simp
  from fl64_normal [OF assms] have f: "fl64 x = of_int m * u" and m: "2 ^ 52 \<le> m" "m \<le> 2 ^ 53"
    unfolding u_def m_def by simp_all
  from m have "(2 ^ 52 :: real) \<le> of_int m" "(of_int m :: real) \<le> 2 ^ 53"
    by (metis of_int_le_iff of_int_numeral of_int_power)+
  with u have "u * 2 ^ 52 \<le> of_int m * u" "of_int m * u \<le> u * 2 ^ 53"
    by (simp_all add: mult.commute)
  then show ?thesis unfolding f lo hi by simp
qed

lemma expo_mono:
  assumes "0 < x" "x \<le> y"
  shows "expo x \<le> expo y"
proof (rule ccontr)
  assume "\<not> expo x \<le> expo y"
  then have "expo y + 1 \<le> expo x" by simp
  from pow2_mono [OF this] expo_bounds [of x] expo_bounds [of y] assms show False by linarith
qed

lemma fl64_mono:
  assumes "pow2 (- 1022) \<le> x" "x \<le> y"
  shows "fl64 x \<le> fl64 y"
proof -
  from assms pow2_pos [of "- 1022"] have pos: "0 < x" by linarith
  from assms have y: "pow2 (- 1022) \<le> y" by linarith
  show ?thesis
  proof (cases "expo x = expo y")
    case True
    define u where "u = pow2 (expo y - 52)"
    have u: "0 < u" unfolding u_def by (rule pow2_pos)
    from assms(2) u have "x / u \<le> y / u" by (simp add: divide_right_mono)
    from round_even_mono [OF this] have "(of_int (round_even (x / u)) :: real) \<le> of_int (round_even (y / u))"
      by simp
    with u have "of_int (round_even (x / u)) * u \<le> of_int (round_even (y / u)) * u"
      by (simp add: mult_right_mono)
    then show ?thesis
      unfolding fl64_normal(1) [OF assms(1)] fl64_normal(1) [OF y] True u_def .
  next
    case False
    with expo_mono [OF pos assms(2)] have "expo x + 1 \<le> expo y" by simp
    from pow2_mono [OF this] fl64_binade [OF assms(1)] fl64_binade [OF y] show ?thesis by linarith
  qed
qed

lemma fl64_idem:
  assumes "pow2 (- 1022) \<le> x"
  shows "fl64 (fl64 x) = fl64 x"
proof -
  define u where "u = pow2 (expo x - 52)"
  define m where "m = round_even (x / u)"
  have u: "0 < u" unfolding u_def by (rule pow2_pos)
  have lo: "u * 2 ^ 52 = pow2 (expo x)" unfolding u_def by (rule pow2_shift)
  have hi: "u * 2 ^ 53 = pow2 (expo x + 1)" unfolding pow2_add1 lo [symmetric] by simp
  from fl64_normal [OF assms] have f: "fl64 x = of_int m * u" and m: "2 ^ 52 \<le> m" "m \<le> 2 ^ 53"
    and e: "- 1022 \<le> expo x"
    unfolding u_def m_def by simp_all
  from fl64_binade [OF assms] have b: "pow2 (expo x) \<le> fl64 x" by simp
  from e have "pow2 (- 1022) \<le> pow2 (expo x)" by (rule pow2_mono)
  with b have n: "pow2 (- 1022) \<le> fl64 x" by linarith
  with pow2_pos [of "- 1022"] have pos: "0 < fl64 x" by linarith
  show ?thesis
  proof (cases "m = 2 ^ 53")
    case True
    then have fx: "fl64 x = pow2 (expo x + 1)" unfolding f hi [symmetric] by simp
    have ex: "expo (fl64 x) = expo x + 1"
      unfolding fx using pow2_less [of "expo x + 1" "expo x + 1 + 1"] pow2_pos [of "expo x + 1"]
      by (intro expo_unique) simp_all
    have "pow2 (expo x + 1) / pow2 (expo x + 1 - 52) = 2 ^ 52"
      using pow2_shift [of "expo x + 1"] pow2_pos [of "expo x + 1 - 52"]
      by (simp add: field_simps)
    then have "round_even (pow2 (expo x + 1) / pow2 (expo x + 1 - 52)) = round_even (of_int (2 ^ 52))"
      by simp
    then have r: "round_even (pow2 (expo x + 1) / pow2 (expo x + 1 - 52)) = 2 ^ 52"
      unfolding round_even_of_int .
    have "fl64 (fl64 x) = of_int (2 ^ 52) * pow2 (expo x + 1 - 52)"
      unfolding fl64_normal(1) [OF n] ex unfolding fx r ..
    also have "\<dots> = pow2 (expo x + 1)" using pow2_shift [of "expo x + 1"] by (simp add: mult.commute)
    finally show ?thesis unfolding fx .
  next
    case False
    with m have "m < 2 ^ 53" by simp
    then have "(of_int m :: real) < 2 ^ 53"
      by (metis of_int_less_iff of_int_numeral of_int_power)
    with u have "of_int m * u < u * 2 ^ 53" by (simp add: mult.commute)
    then have "fl64 x < pow2 (expo x + 1)" unfolding f hi .
    with b pos have ex: "expo (fl64 x) = expo x" by (intro expo_unique) simp_all
    have "of_int m * u / u = (of_int m :: real)" using u by simp
    then have r: "round_even (of_int m * u / u) = m" by (simp add: round_even_of_int)
    have "fl64 (fl64 x) = of_int (round_even (of_int m * u / u)) * u"
      unfolding fl64_normal(1) [OF n] ex unfolding f u_def [symmetric] ..
    then show ?thesis unfolding r f .
  qed
qed

lemma fl64_double:
  assumes "pow2 (- 1022) \<le> x"
  shows "fl64 (2 * x) = 2 * fl64 x"
proof -
  from assms pow2_pos [of "- 1022"] have pos: "0 < x" by linarith
  from expo_bounds [OF pos] have b: "pow2 (expo x) \<le> x" "x < pow2 (expo x + 1)" by simp_all
  have "pow2 (expo x + 1) \<le> 2 * x" unfolding pow2_add1 using b(1) by simp
  moreover have "2 * x < pow2 (expo x + 1 + 1)"
    using b(2) pow2_add1 [of "expo x + 1"] by simp
  moreover have "0 < 2 * x" using pos by simp
  ultimately have ex: "expo (2 * x) = expo x + 1" by (intro expo_unique)
  from assms pos have n: "pow2 (- 1022) \<le> 2 * x" by linarith
  have u2: "pow2 (expo x + 1 - 52) = 2 * pow2 (expo x - 52)"
    using pow2_add1 [of "expo x - 52"] by (simp add: algebra_simps)
  have q: "2 * x / (2 * pow2 (expo x - 52)) = x / pow2 (expo x - 52)" by simp
  show ?thesis
    unfolding fl64_normal(1) [OF n] fl64_normal(1) [OF assms] ex u2 q by simp
qed

lemma midpoint_between:
  assumes a: "fl64 a = a" and b: "fl64 b = b" and lo: "pow2 (- 1022) \<le> a" and le: "a \<le> b"
  shows "a \<le> js_divide (js_plus a b) 2 \<and> js_divide (js_plus a b) 2 \<le> b \<and>
         fl64 (js_divide (js_plus a b) 2) = js_divide (js_plus a b) 2"
proof -
  from lo pow2_pos [of "- 1022"] have pos: "0 < a" by linarith
  from lo le have lob: "pow2 (- 1022) \<le> b" by linarith
  define s where "s = fl64 (a + b)"
  have "2 * a \<le> a + b" "a + b \<le> 2 * b" using le by simp_all
  moreover have "pow2 (- 1022) \<le> 2 * a" "pow2 (- 1022) \<le> a + b" using lo pos le by linarith+
  ultimately have "fl64 (2 * a) \<le> s" "s \<le> fl64 (2 * b)"
    unfolding s_def by (intro fl64_mono; simp)+
  then have s: "2 * a \<le> s" "s \<le> 2 * b"
    unfolding fl64_double [OF lo] fl64_double [OF lob] a b by simp_all
  then have h: "a \<le> s / 2" "s / 2 \<le> b" by simp_all
  with lo have n: "pow2 (- 1022) \<le> s / 2" by linarith
  from fl64_mono [OF lo h(1)] fl64_mono [OF n h(2)]
  have "a \<le> fl64 (s / 2)" "fl64 (s / 2) \<le> b" unfolding a b by simp_all
  moreover have "fl64 (fl64 (s / 2)) = fl64 (s / 2)" by (rule fl64_idem [OF n])
  ultimately show ?thesis unfolding js_divide_def js_plus_def s_def by simp
qed

subsection \<open>The target dimensions\<close>

lemma clamp_cases:
  "Math_max_num (Num 1) (Math_min_num (Math_round_num n) (Num (real M))) =
     (case n of
        Num x \<Rightarrow> Num (of_int (max 1 (min (Math_round x) (int M))))
      | PosInfinity \<Rightarrow> Num (of_int (max 1 (int M)))
      | NegInfinity \<Rightarrow> Num 1
      | NaN \<Rightarrow> NaN)"
  by (cases n) (simp_all add: max_def min_def)

lemma targetWidth_NaN: "targetWidth options = NaN \<longleftrightarrow> opt_width options = NaN"
  unfolding targetWidth_def clamp_cases by (simp split: number.splits)

lemma targetHeight_NaN: "targetHeight options = NaN \<longleftrightarrow> opt_height options = NaN"
  unfolding targetHeight_def clamp_cases by (simp split: number.splits)

lemma targetWidth_range:
  assumes "opt_width options \<noteq> NaN"
  shows "\<exists>w. targetWidth options = Num (of_int w) \<and> 1 \<le> w \<and> w \<le> 15000"
proof (cases "opt_width options")
  case (Num x)
  then have "targetWidth options = Num (of_int (max 1 (min (Math_round x) 15000)))"
    unfolding targetWidth_def clamp_cases by (simp add: MAX_WIDTH_def)
  then show ?thesis by (intro exI [of _ "max 1 (min (Math_round x) 15000)"]) simp
next
  case PosInfinity
  then have "targetWidth options = Num (of_int 15000)"
    unfolding targetWidth_def clamp_cases by (simp add: MAX_WIDTH_def)
  then show ?thesis by (intro exI [of _ 15000]) simp
next
  case NegInfinity
  then have "targetWidth options = Num (of_int 1)"
    unfolding targetWidth_def clamp_cases by simp
  then show ?thesis by (intro exI [of _ 1]) simp
next
  case NaN
  with assms show ?thesis by simp
qed

lemma targetHeight_range:
  assumes "opt_height options \<noteq> NaN"
  shows "\<exists>h. targetHeight options = Num (of_int h) \<and> 1 \<le> h \<and> h \<le> 15000"
proof (cases "opt_height options")
  case (Num x)
  then have "targetHeight options = Num (of_int (max 1 (min (Math_round x) 15000)))"
    unfolding targetHeight_def clamp_cases by (simp add: MAX_HEIGHT_def)
  then show ?thesis by (intro exI [of _ "max 1 (min (Math_round x) 15000)"]) simp
next
  case PosInfinity
  then have "targetHeight options = Num (of_int 15000)"
    unfolding targetHeight_def clamp_cases by (simp add: MAX_HEIGHT_def)
  then show ?thesis by (intro exI [of _ 15000]) simp
next
  case NegInfinity
  then have "targetHeight options = Num (of_int 1)"
    unfolding targetHeight_def clamp_cases by simp
  then show ?thesis by (intro exI [of _ 1]) simp
next
  case NaN
  with assms show ?thesis by simp
qed

lemma js_times_NaN [simp]: "js_times a NaN = NaN"
  by (cases a) simp_all

lemma EnforceRange_int: "0 \<le> w \<Longrightarrow> w \<le> 15000 \<Longrightarrow> EnforceRange (Num (of_int w)) = Some w"
  by (simp add: EnforceRange_def)

lemma pixels_exact:
  assumes "1 \<le> w" "w \<le> 15000" "1 \<le> h" "h \<le> 15000"
  shows "js_times (Num (of_int w)) (Num (of_int h)) = Num (of_int (w * h))"
proof -
  have "w * h \<le> 15000 * 15000" using assms by (intro mult_mono) simp_all
  moreover have "0 \<le> w * h" using assms by simp
  ultimately have "\<bar>w * h\<bar> < 2 ^ 53" by simp
  from fl64_of_int [OF this] show ?thesis by (simp add: js_multiply_def)
qed

lemma process_try_NaN:
  assumes "opt_width options = NaN \<or> opt_height options = NaN"
  shows "process_try eng f options bitmap = (Inl TypeError, [])"
proof -
  from assms have n: "targetWidth options = NaN \<or> targetHeight options = NaN"
    by (simp add: targetWidth_NaN targetHeight_NaN)
  then have "js_times (targetWidth options) (targetHeight options) = NaN" by auto
  moreover have "EnforceRange NaN = None" by (simp add: EnforceRange_def)
  ultimately show ?thesis using n
    by (auto simp: process_try_def split: option.splits)
qed

lemma process_try_Num:
  assumes "targetWidth options = Num (of_int w)" "targetHeight options = Num (of_int h)"
    "1 \<le> w" "w \<le> 15000" "1 \<le> h" "h \<le> 15000"
  shows "process_try eng f options bitmap =
     (if w * h > int MAX_PIXELS
      then (Inl (Thrown ''Output dimensions exceed safety limit (50000000 pixels).''), [])
      else canvas_work eng f options bitmap w h)"
proof -
  have gt: "js_gt (js_times (targetWidth options) (targetHeight options)) (Num (real MAX_PIXELS))
            \<longleftrightarrow> w * h > int MAX_PIXELS"
    unfolding assms(1,2) pixels_exact [OF assms(3-6)] js_gt.simps
    by (metis of_int_less_iff of_int_of_nat_eq)
  have er: "EnforceRange (targetWidth options) = Some w" "EnforceRange (targetHeight options) = Some h"
    unfolding assms(1,2) using assms(3-6) by (simp_all add: EnforceRange_int)
  show ?thesis
    by (simp only: process_try_def gt er option.case)
qed

subsection \<open>What a run allocates\<close>

lemma search_trace_only_exports:
  "e \<in> set (snd (search_loop eng mimeType targetBytes i minQ maxQ bestBlob)) \<Longrightarrow>
     \<exists>q. e = ConvertToBlob mimeType q"
proof (induction eng mimeType targetBytes i minQ maxQ bestBlob rule: search_loop.induct)
  case (1 eng mimeType targetBytes i minQ maxQ bestBlob)
  let ?mid = "js_divide (js_plus minQ maxQ) 2"
  show ?case
  proof (cases "i < 5")
    case False
    with "1.prems" show ?thesis by (simp add: search_loop.simps [of _ _ _ i])
  next
    case True
    show ?thesis
    proof (cases "convertToBlob eng mimeType (Some ?mid)")
      case None
      with True "1.prems" show ?thesis by (simp add: search_loop.simps [of _ _ _ i])
    next
      case (Some attempt)
      show ?thesis
      proof (cases "of_nat (blob_size eng attempt) < targetBytes")
        case under: True
        from "1.prems" True Some under
        have "e = ConvertToBlob mimeType (Some ?mid) \<or>
              e \<in> set (snd (search_loop eng mimeType targetBytes (i + 1) ?mid maxQ (Some attempt)))"
          by (simp add: search_loop.simps [of _ _ _ i] Let_def)
        with "1.IH"(1) [OF True refl Some under] show ?thesis by blast
      next
        case over: False
        from "1.prems" True Some over
        have "e = ConvertToBlob mimeType (Some ?mid) \<or>
              e \<in> set (snd (search_loop eng mimeType targetBytes (i + 1) minQ ?mid bestBlob))"
          by (simp add: search_loop.simps [of _ _ _ i] Let_def)
        with "1.IH"(2) [OF True refl Some over] show ?thesis by blast
      qed
    qed
  qed
qed

lemma size_search_trace_only_exports:
  assumes "e \<in> set (snd (size_search eng mimeType targetBytes))"
  shows "\<exists>q. e = ConvertToBlob mimeType q"
proof -
  obtain r tr where sl: "search_loop eng mimeType targetBytes 0 (fl64 (1 / 100)) 1 None = (r, tr)"
    by (cases "search_loop eng mimeType targetBytes 0 (fl64 (1 / 100)) 1 None")
  have tr: "\<exists>q. x = ConvertToBlob mimeType q" if "x \<in> set tr" for x
    using search_trace_only_exports [of x eng mimeType targetBytes 0 "fl64 (1 / 100)" 1 None] that sl
    by simp
  have "set (snd (size_search eng mimeType targetBytes))
          \<subseteq> {ConvertToBlob mimeType (Some 1), ConvertToBlob mimeType (Some (fl64 (1 / 100)))} \<union> set tr"
    by (simp add: size_search_def Let_def sl split: option.splits sum.splits prod.splits) blast
  with assms tr show ?thesis by blast
qed

lemma painted_trace:
  assumes "e \<in> set (painted options bitmap w h)"
  shows "(\<forall>i. e \<noteq> CreateImageBitmap i \<and> e \<noteq> BitmapClose i) \<and>
         (\<forall>w' h'. e = NewCanvas w' h' \<longrightarrow> w' = w \<and> h' = h)"
  using assms by (auto simp: painted_def split: if_splits)

lemma canvas_work_trace:
  assumes "e \<in> set (snd (canvas_work eng f options bitmap w h))"
  shows "(\<forall>i. e \<noteq> CreateImageBitmap i \<and> e \<noteq> BitmapClose i) \<and>
         (\<forall>w' h'. e = NewCanvas w' h' \<longrightarrow> w' = w \<and> h' = h)"
proof -
  consider (noctx) "\<not> getContext eng w h"
    | (bmp) "getContext eng w h" "format options = BMP"
    | (search) "getContext eng w h" "format options \<noteq> BMP" "sizeTargeted options"
    | (export) "getContext eng w h" "format options \<noteq> BMP" "\<not> sizeTargeted options"
    by blast
  then show ?thesis
  proof cases
    case noctx
    with assms show ?thesis by (simp add: canvas_work_def)
  next
    case bmp
    with assms have "e \<in> set (painted options bitmap w h) \<or> (\<exists>a b. e = GetImageData a b)"
      by (auto simp: canvas_work_def)
    with painted_trace [of e options bitmap w h] show ?thesis by auto
  next
    case search
    with assms have "e \<in> set (painted options bitmap w h) \<or>
        e \<in> set (snd (size_search eng (''image/'' @ format_name (format options))
                     (js_multiply (the (targetSizeKB options)) 1024)))"
      by (auto simp: canvas_work_def Let_def)
    with painted_trace [of e options bitmap w h]
         size_search_trace_only_exports [of e eng "''image/'' @ format_name (format options)"
            "js_multiply (the (targetSizeKB options)) 1024"]
    show ?thesis by auto
  next
    case export
    with assms have "e \<in> set (painted options bitmap w h) \<or> (\<exists>m q. e = ConvertToBlob m q)"
      by (auto simp: canvas_work_def Let_def split: option.splits)
    with painted_trace [of e options bitmap w h] show ?thesis by auto
  qed
qed

lemma process_try_trace:
  assumes "e \<in> set (snd (process_try eng f options bitmap))"
  shows "(\<forall>i. e \<noteq> CreateImageBitmap i \<and> e \<noteq> BitmapClose i) \<and>
         (\<forall>w h. e = NewCanvas w h \<longrightarrow>
            targetWidth options = Num (of_int w) \<and> targetHeight options = Num (of_int h) \<and>
            1 \<le> w \<and> w \<le> 15000 \<and> 1 \<le> h \<and> h \<le> 15000 \<and> w * h \<le> int MAX_PIXELS)"
proof (cases "opt_width options = NaN \<or> opt_height options = NaN")
  case True
  from process_try_NaN [OF this, of eng f bitmap] assms show ?thesis by simp
next
  case False
  with targetWidth_range [of options] targetHeight_range [of options]
  obtain w h where wh: "targetWidth options = Num (of_int w)" "targetHeight options = Num (of_int h)"
    "1 \<le> w" "w \<le> 15000" "1 \<le> h" "h \<le> 15000"
    by blast
  note pt = process_try_Num [OF wh, of eng f bitmap]
  show ?thesis
  proof (cases "w * h > int MAX_PIXELS")
    case True
    with pt assms show ?thesis by simp
  next
    case False
    with pt assms have "e \<in> set (snd (canvas_work eng f options bitmap w h))" by simp
    from canvas_work_trace [OF this] wh False show ?thesis by auto
  qed
qed

lemma processImage_trace_canvas:
  assumes "NewCanvas w h \<in> set (snd (processImage eng f options))"
  shows "targetWidth options = Num (of_int w) \<and> targetHeight options = Num (of_int h) \<and>
         1 \<le> w \<and> w \<le> 15000 \<and> 1 \<le> h \<and> h \<le> 15000 \<and> w * h \<le> int MAX_PIXELS"
proof (cases "createImageBitmap eng f")
  case None
  with assms show ?thesis by (simp add: processImage_def)
next
  case (Some bitmap)
  with assms have "NewCanvas w h \<in> set (snd (process_try eng f options bitmap))"
    by (simp add: processImage_def Let_def)
  from process_try_trace [OF this] show ?thesis by blast
qed

lemma Math_round_of_int: "Math_round (of_int n) = n"
  unfolding Math_round_def by linarith

lemma Math_round_numeral [simp]: "Math_round (numeral k) = numeral k"
  using Math_round_of_int [of "numeral k"] by simp

lemma Math_round_0 [simp]: "Math_round 0 = 0"
  using Math_round_of_int [of 0] by simp

text \<open>
  For options whose width and height are not \<^verbatim>\<open>NaN\<close>, the target dimensions are
  integers clamped to \<open>[1, 15000]\<close> (an infinite width clamps to 15000 or to 1); whenever
  their product exceeds \<^verbatim>\<open>MAX_PIXELS = 50000000\<close> the run ends with an error and
  allocates no canvas; and every canvas that a run allocates has exactly the clamped
  dimensions and at most \<^verbatim>\<open>MAX_PIXELS\<close> pixels.
\<close>

lemma processImage_pixel_limit_numbers:
  assumes "opt_width options \<noteq> NaN" "opt_height options \<noteq> NaN"
  shows "\<exists>w h. targetWidth options = Num (of_int w) \<and> targetHeight options = Num (of_int h) \<and>
     1 \<le> w \<and> w \<le> 15000 \<and> 1 \<le> h \<and> h \<le> 15000 \<and>
     (\<forall>x. opt_width options = Num x \<longrightarrow> w = max 1 (min (Math_round x) 15000)) \<and>
     (\<forall>y. opt_height options = Num y \<longrightarrow> h = max 1 (min (Math_round y) 15000)) \<and>
     (w * h > 50000000 \<longrightarrow>
        (\<exists>e. fst (processImage eng f options) = Inl e) \<and>
        (\<forall>w' h'. NewCanvas w' h' \<notin> set (snd (processImage eng f options))) \<and>
        (createImageBitmap eng f \<noteq> None \<longrightarrow>
           processImage eng f options =
             (Inl (Thrown ''Output dimensions exceed safety limit (50000000 pixels).''),
              [CreateImageBitmap 0, BitmapClose 0]))) \<and>
     (\<forall>w' h'. NewCanvas w' h' \<in> set (snd (processImage eng f options)) \<longrightarrow>
        w' = w \<and> h' = h \<and> w' * h' \<le> 50000000)"
proof -
  from assms targetWidth_range [of options] targetHeight_range [of options]
  obtain w h where wh: "targetWidth options = Num (of_int w)" "targetHeight options = Num (of_int h)"
    "1 \<le> w" "w \<le> 15000" "1 \<le> h" "h \<le> 15000"
    by blast
  have wx: "w = max 1 (min (Math_round x) 15000)" if "opt_width options = Num x" for x
    using wh(1) that unfolding targetWidth_def clamp_cases by (simp add: MAX_WIDTH_def)
  have hy: "h = max 1 (min (Math_round y) 15000)" if "opt_height options = Num y" for y
    using wh(2) that unfolding targetHeight_def clamp_cases by (simp add: MAX_HEIGHT_def)
  have canvas: "w' = w \<and> h' = h \<and> w' * h' \<le> 50000000"
    if "NewCanvas w' h' \<in> set (snd (processImage eng f options))" for w' h'
    using processImage_trace_canvas [OF that] wh(1,2) by (simp add: MAX_PIXELS_def)
  have large: "(\<exists>e. fst (processImage eng f options) = Inl e) \<and>
      (\<forall>w' h'. NewCanvas w' h' \<notin> set (snd (processImage eng f options))) \<and>
      (createImageBitmap eng f \<noteq> None \<longrightarrow>
         processImage eng f options =
           (Inl (Thrown ''Output dimensions exceed safety limit (50000000 pixels).''),
            [CreateImageBitmap 0, BitmapClose 0]))"
    if "w * h > 50000000"
  proof -
    from that have big: "w * h > int MAX_PIXELS" by (simp add: MAX_PIXELS_def)
    have pt: "process_try eng f options bitmap =
        (Inl (Thrown ''Output dimensions exceed safety limit (50000000 pixels).''), [])" for bitmap
      using process_try_Num [OF wh, of eng f bitmap] big by simp
    show ?thesis
      by (cases "createImageBitmap eng f") (simp_all add: processImage_def Let_def pt)
  qed
  from wh wx hy canvas large show ?thesis by blast
qed

text \<open>
  Whatever the options, a canvas that a run allocates has at most \<^verbatim>\<open>MAX_PIXELS\<close> pixels.
\<close>

lemma processImage_canvas_within_limit:
  "NewCanvas w h \<in> set (snd (processImage eng f options)) \<Longrightarrow> w * h \<le> 50000000"
  using processImage_trace_canvas [of w h eng f options] by (simp add: MAX_PIXELS_def)

text \<open>
  Claim C4 says that for every input and options \<^verbatim>\<open>processImage\<close> clamps the target
  dimensions to \<open>[1, 15000]\<close> by \<open>[1, 15000]\<close> and fails, before it allocates a canvas,
  whenever the clamped product exceeds \<^verbatim>\<open>MAX_PIXELS\<close>. The code does so for every width
  and height that is a number, and no run allocates a canvas of more than \<^verbatim>\<open>MAX_PIXELS\<close>
  pixels (the two lemmas above). It does not clamp a width that is \<^verbatim>\<open>NaN\<close>:
  \<^verbatim>\<open>Math.round\<close>, \<^verbatim>\<open>Math.min\<close> and \<^verbatim>\<open>Math.max\<close> hand \<^verbatim>\<open>NaN\<close> on, so the target
  width is \<^verbatim>\<open>NaN\<close> and not a value of \<open>[1, 15000]\<close>, the pixel check
  \<^verbatim>\<open>NaN > 50000000\<close> does not fire, and the canvas constructor is called with
  \<^verbatim>\<open>NaN\<close> and throws a \<^verbatim>\<open>TypeError\<close>. For a file that decodes and the options of a
  500 by 500 JPEG with the width replaced by \<^verbatim>\<open>NaN\<close>, the run ends with that
  \<^verbatim>\<open>TypeError\<close>, having decoded and closed the bitmap.
\<close>

theorem processImage_nan_not_clamped:
  "targetWidth (opts0\<lparr>opt_width := NaN\<rparr>) = NaN \<and>
   processImage eng0 png_file (opts0\<lparr>opt_width := NaN\<rparr>) =
     (Inl TypeError, [CreateImageBitmap 0, BitmapClose 0])"
proof -
  have "opt_width (opts0\<lparr>opt_width := NaN\<rparr>) = NaN" by simp
  then have "process_try eng0 png_file (opts0\<lparr>opt_width := NaN\<rparr>) bitmap = (Inl TypeError, [])"
    for bitmap by (intro process_try_NaN) simp
  then show ?thesis
    by (simp add: processImage_def Let_def targetWidth_NaN) (simp add: eng0_def)
qed

subsection \<open>The size search\<close>

lemma search_loop_step:
  assumes "i < 5" "convertToBlob eng mimeType (Some (js_divide (js_plus minQ maxQ) 2)) = Some attempt"
  shows "search_loop eng mimeType targetBytes i minQ maxQ bestBlob =
     (let rest = (if of_nat (blob_size eng attempt) < targetBytes
                  then search_loop eng mimeType targetBytes (i + 1) (js_divide (js_plus minQ maxQ) 2) maxQ (Some attempt)
                  else search_loop eng mimeType targetBytes (i + 1) minQ (js_divide (js_plus minQ maxQ) 2) bestBlob)
      in (fst rest, ConvertToBlob mimeType (Some (js_divide (js_plus minQ maxQ) 2)) # snd rest))"
  using assms by (subst search_loop.simps) (simp add: Let_def)

lemma search_loop_done:
  "\<not> i < 5 \<Longrightarrow> search_loop eng mimeType targetBytes i minQ maxQ bestBlob = (Inr (minQ, maxQ, bestBlob), [])"
  by (subst search_loop.simps) simp

lemma canvas_work_size_search:
  assumes "getContext eng w h" "format options = JPEG \<or> format options = WEBP"
    "targetSizeKB options = Some kb" "kb > 0"
  shows "canvas_work eng f options bitmap w h =
     (map_sum id CanvasBlob
        (fst (size_search eng (''image/'' @ format_name (format options)) (js_multiply kb 1024))),
      painted options bitmap w h @
        snd (size_search eng (''image/'' @ format_name (format options)) (js_multiply kb 1024)))"
proof -
  have st: "sizeTargeted options" using assms by (simp add: sizeTargeted_def)
  have nb: "format options \<noteq> BMP" using assms(2) by auto
  show ?thesis
    unfolding canvas_work_def Let_def using st nb assms(1,3) by simp
qed

lemma fl64_hundredth: "fl64 (1 / 100) = 5764607523034235 / 576460752303423488"
  by (simp add: fl64_def expo.simps pow2_def round_even_def Let_def)

lemma first_midpoint:
  "js_divide (js_plus (fl64 (1 / 100)) 1) 2 = 4548635623644201 / 9007199254740992"
  unfolding fl64_hundredth
  by (simp add: js_divide_def js_plus_def fl64_def expo.simps pow2_def round_even_def Let_def)

lemma hundredth_normal: "pow2 (- 1022) \<le> fl64 (1 / 100)"
proof -
  have "pow2 (- 1022) \<le> pow2 (- 7)" by (rule pow2_mono) simp
  also have "\<dots> \<le> fl64 (1 / 100)" unfolding fl64_hundredth by (simp add: pow2_def)
  finally show ?thesis .
qed

lemma fl64_one: "fl64 1 = 1"
  by (simp add: fl64_def expo.simps pow2_def round_even_def Let_def)

lemma hundredth_double: "fl64 (fl64 (1 / 100)) = fl64 (1 / 100)"
proof -
  have "pow2 (- 1022) \<le> pow2 (- 7)" by (rule pow2_mono) simp
  also have "\<dots> \<le> 1 / 100" by (simp add: pow2_def)
  finally show ?thesis by (rule fl64_idem)
qed


lemma search_loop_spec:
  shows "(\<And>q. convertToBlob eng mimeType (Some q) = Some (enc q)) \<Longrightarrow>
    fl64 minQ = minQ \<Longrightarrow> fl64 maxQ = maxQ \<Longrightarrow> pow2 (- 1022) \<le> minQ \<Longrightarrow> minQ \<le> maxQ \<Longrightarrow>
    \<exists>minQ' maxQ' best' qs.
      search_loop eng mimeType T i minQ maxQ best =
        (Inr (minQ', maxQ', best'), map (\<lambda>q. ConvertToBlob mimeType (Some q)) qs) \<and>
      (\<forall>q\<in>set qs. minQ \<le> q \<and> q \<le> maxQ) \<and> minQ \<le> minQ' \<and>
      (\<forall>q\<in>set qs. of_nat (blob_size eng (enc q)) < T \<longrightarrow> q \<le> minQ') \<and>
      minQ' = (if \<exists>q\<in>set qs. of_nat (blob_size eng (enc q)) < T
               then last (filter (\<lambda>q. of_nat (blob_size eng (enc q)) < T) qs) else minQ) \<and>
      length qs = 5 - i \<and>
      (i < 5 \<longrightarrow> hd qs = js_divide (js_plus minQ maxQ) 2) \<and>
      best' = (if filter (\<lambda>q. of_nat (blob_size eng (enc q)) < T) qs = [] then best
               else Some (enc (last (filter (\<lambda>q. of_nat (blob_size eng (enc q)) < T) qs))))"
proof (induction eng mimeType T i minQ maxQ best rule: search_loop.induct)
  case (1 eng mimeType T i minQ maxQ best)
  note enc = "1.prems"(1)
  define mid where "mid = js_divide (js_plus minQ maxQ) 2"
  let ?under = "\<lambda>q. of_nat (blob_size eng (enc q)) < T"
  let ?E = "\<lambda>q. ConvertToBlob mimeType (Some q)"
  from midpoint_between [OF "1.prems"(2,3,4,5)]
  have mid: "minQ \<le> mid" "mid \<le> maxQ" "fl64 mid = mid" unfolding mid_def by simp_all
  from mid(1) "1.prems"(4) have midlo: "pow2 (- 1022) \<le> mid" by linarith
  show ?case
  proof (cases "i < 5")
    case False
    then show ?thesis
      by (intro exI [of _ minQ] exI [of _ maxQ] exI [of _ best] exI [of _ "[]"])
         (simp add: search_loop_done)
  next
    case True
    have hd: "i < 5 \<longrightarrow> hd (mid # qs) = js_divide (js_plus minQ maxQ) 2" for qs
      by (simp add: mid_def)
    have step: "search_loop eng mimeType T i minQ maxQ best =
      (let rest = (if ?under mid
                   then search_loop eng mimeType T (i + 1) mid maxQ (Some (enc mid))
                   else search_loop eng mimeType T (i + 1) minQ mid best)
       in (fst rest, ?E mid # snd rest))"
      unfolding mid_def by (rule search_loop_step [OF True enc])
    show ?thesis
    proof (cases "?under mid")
      case under: True
      from "1.IH"(1) [OF True refl enc under [unfolded mid_def] enc
             mid(3) [unfolded mid_def] "1.prems"(3) midlo [unfolded mid_def] mid(2) [unfolded mid_def]]
      obtain minQ' maxQ' best' qs where
        run: "search_loop eng mimeType T (i + 1) mid maxQ (Some (enc mid)) = (Inr (minQ', maxQ', best'), map ?E qs)"
        and rng: "\<forall>q\<in>set qs. mid \<le> q \<and> q \<le> maxQ"
        and mono: "mid \<le> minQ'"
        and top: "\<forall>q\<in>set qs. ?under q \<longrightarrow> q \<le> minQ'"
        and res: "minQ' = (if \<exists>q\<in>set qs. ?under q then last (filter ?under qs) else mid)"
        and len: "length qs = 5 - (i + 1)"
        and bst: "best' = (if filter ?under qs = [] then Some (enc mid)
                           else Some (enc (last (filter ?under qs))))"
        unfolding mid_def [symmetric] by blast
      have eq: "search_loop eng mimeType T i minQ maxQ best = (Inr (minQ', maxQ', best'), map ?E (mid # qs))"
        using step under run by (simp add: Let_def)
      have r: "\<forall>q\<in>set (mid # qs). minQ \<le> q \<and> q \<le> maxQ"
        using rng mid by auto
      have m: "minQ \<le> minQ'" using mono mid by simp
      have t: "\<forall>q\<in>set (mid # qs). ?under q \<longrightarrow> q \<le> minQ'"
        using top mono by auto
      have f: "minQ' = (if \<exists>q\<in>set (mid # qs). ?under q
                        then last (filter ?under (mid # qs)) else minQ)"
      proof (cases "\<exists>q\<in>set qs. ?under q")
        case True
        then have "filter ?under qs \<noteq> []" by (simp add: filter_empty_conv)
        with res True under show ?thesis by simp
      next
        case False
        then have e: "filter ?under qs = []" by (simp add: filter_empty_conv)
        from res False have "minQ' = mid" by simp
        with e under show ?thesis by simp
      qed
      have l: "length (mid # qs) = 5 - i" using len True by simp
      have b: "best' = (if filter ?under (mid # qs) = [] then best
                        else Some (enc (last (filter ?under (mid # qs)))))"
        using bst under by simp
      from eq r m t f l hd [of qs] b show ?thesis by blast
    next
      case over: False
      from "1.IH"(2) [OF True refl enc over [unfolded mid_def] enc
             "1.prems"(2) mid(3) [unfolded mid_def] "1.prems"(4) mid(1) [unfolded mid_def]]
      obtain minQ' maxQ' best' qs where
        run: "search_loop eng mimeType T (i + 1) minQ mid best = (Inr (minQ', maxQ', best'), map ?E qs)"
        and rng: "\<forall>q\<in>set qs. minQ \<le> q \<and> q \<le> mid"
        and mono: "minQ \<le> minQ'"
        and top: "\<forall>q\<in>set qs. ?under q \<longrightarrow> q \<le> minQ'"
        and res: "minQ' = (if \<exists>q\<in>set qs. ?under q then last (filter ?under qs) else minQ)"
        and len: "length qs = 5 - (i + 1)"
        and bst: "best' = (if filter ?under qs = [] then best
                           else Some (enc (last (filter ?under qs))))"
        unfolding mid_def [symmetric] by blast
      have eq: "search_loop eng mimeType T i minQ maxQ best = (Inr (minQ', maxQ', best'), map ?E (mid # qs))"
        using step over run by (simp add: Let_def)
      have r: "\<forall>q\<in>set (mid # qs). minQ \<le> q \<and> q \<le> maxQ"
        using rng mid by auto
      have t: "\<forall>q\<in>set (mid # qs). ?under q \<longrightarrow> q \<le> minQ'"
        using top over by auto
      have f: "minQ' = (if \<exists>q\<in>set (mid # qs). ?under q
                        then last (filter ?under (mid # qs)) else minQ)"
        using res over by simp
      have l: "length (mid # qs) = 5 - i" using len True by simp
      have b: "best' = (if filter ?under (mid # qs) = [] then best
                        else Some (enc (last (filter ?under (mid # qs)))))"
        using bst over by simp
      from eq r mono t f l hd [of qs] b show ?thesis by blast
    qed
  qed
qed


text \<open>
  Claim C3. Let the canvas export without failing. The size search first exports at quality
  1 and returns that blob, with no further export, when its size is at most the target.
  Otherwise it runs the loop exactly five times, starting from the interval of the doubles
  0.01 and 1: the first probe is the double 0.505, and every probe lies in the interval. An
  iteration probes the midpoint of its interval, computed in doubles; a probe strictly
  smaller than the target becomes the best blob and raises \<^verbatim>\<open>minQ\<close> to the midpoint, any
  other probe lowers \<^verbatim>\<open>maxQ\<close> to the midpoint and keeps the best blob. After the loop the
  search returns the best blob, the last probe that was under the target, which has the
  highest quality of the probes under the target; when no probe was under the target it
  makes one more export, at the double 0.01, and returns it whatever its size. So the
  exports are the first one, the five probes, and at most the fallback, and for every
  target, reachable or not, the search returns a blob. \<^verbatim>\<open>processImage\<close> runs this search,
  between the canvas work and the closing of the bitmap, whenever a positive target size
  comes with the format JPEG or WebP.
\<close>

theorem size_search_spec:
  assumes enc: "\<And>q. convertToBlob eng mimeType (Some q) = Some (enc q)"
  shows
   "(of_nat (blob_size eng (enc 1)) \<le> T \<longrightarrow>
       size_search eng mimeType T = (Inr (enc 1), [ConvertToBlob mimeType (Some 1)])) \<and>
    (\<not> of_nat (blob_size eng (enc 1)) \<le> T \<longrightarrow>
       (\<exists>qs. length qs = 5 \<and> hd qs = 4548635623644201 / 9007199254740992 \<and>
          (\<forall>q\<in>set qs. 5764607523034235 / 576460752303423488 \<le> q \<and> q \<le> 1) \<and>
          (\<exists>minQ' maxQ' bestBlob'.
             search_loop eng mimeType T 0 (5764607523034235 / 576460752303423488) 1 None =
               (Inr (minQ', maxQ', bestBlob'), map (\<lambda>q. ConvertToBlob mimeType (Some q)) qs)) \<and>
          (if \<exists>q\<in>set qs. of_nat (blob_size eng (enc q)) < T
           then \<exists>b\<in>set qs. of_nat (blob_size eng (enc b)) < T \<and>
                  b = last (filter (\<lambda>q. of_nat (blob_size eng (enc q)) < T) qs) \<and>
                  (\<forall>q\<in>set qs. of_nat (blob_size eng (enc q)) < T \<longrightarrow> q \<le> b) \<and>
                  size_search eng mimeType T =
                    (Inr (enc b),
                     ConvertToBlob mimeType (Some 1) # map (\<lambda>q. ConvertToBlob mimeType (Some q)) qs)
           else size_search eng mimeType T =
                  (Inr (enc (5764607523034235 / 576460752303423488)),
                   ConvertToBlob mimeType (Some 1) # map (\<lambda>q. ConvertToBlob mimeType (Some q)) qs @
                   [ConvertToBlob mimeType (Some (5764607523034235 / 576460752303423488))])))) \<and>
    (\<exists>blob. fst (size_search eng mimeType T) = Inr blob) \<and>
    (\<forall>i minQ maxQ bestBlob. i < 5 \<longrightarrow>
       search_loop eng mimeType T i minQ maxQ bestBlob =
         (let midQ = fl64 (fl64 (minQ + maxQ) / 2);
              rest = (if of_nat (blob_size eng (enc midQ)) < T
                      then search_loop eng mimeType T (i + 1) midQ maxQ (Some (enc midQ))
                      else search_loop eng mimeType T (i + 1) minQ midQ bestBlob)
          in (fst rest, ConvertToBlob mimeType (Some midQ) # snd rest))) \<and>
    (\<forall>minQ maxQ bestBlob.
       search_loop eng mimeType T 5 minQ maxQ bestBlob = (Inr (minQ, maxQ, bestBlob), [])) \<and>
    (\<forall>f options bitmap kb w h.
       createImageBitmap eng f = Some bitmap \<and>
       targetWidth options = Num (of_int w) \<and> targetHeight options = Num (of_int h) \<and>
       w * h \<le> int MAX_PIXELS \<and> getContext eng w h \<and>
       (format options = JPEG \<or> format options = WEBP) \<and>
       targetSizeKB options = Some kb \<and> kb > 0 \<and>
       mimeType = ''image/'' @ format_name (format options) \<and> T = fl64 (kb * 1024) \<longrightarrow>
       processImage eng f options =
         (map_sum id CanvasBlob (fst (size_search eng mimeType T)),
          CreateImageBitmap 0 # painted options bitmap w h @ snd (size_search eng mimeType T) @
          [BitmapClose 0]))"
proof -
  let ?E = "\<lambda>q. ConvertToBlob mimeType (Some q)"
  let ?under = "\<lambda>q. of_nat (blob_size eng (enc q)) < T"
  let ?lo = "5764607523034235 / 576460752303423488 :: real"
  have fits: "size_search eng mimeType T = (Inr (enc 1), [?E 1])"
    if "of_nat (blob_size eng (enc 1)) \<le> T"
    using that by (simp add: size_search_def enc)
  have le1: "fl64 (1 / 100) \<le> 1" unfolding fl64_hundredth by simp
  from search_loop_spec [of eng mimeType enc "fl64 (1 / 100)" 1 T 0 None,
         OF enc hundredth_double fl64_one hundredth_normal le1]
  obtain minQ' maxQ' best' qs where
    run: "search_loop eng mimeType T 0 (fl64 (1 / 100)) 1 None = (Inr (minQ', maxQ', best'), map ?E qs)"
    and rng: "\<forall>q\<in>set qs. fl64 (1 / 100) \<le> q \<and> q \<le> 1"
    and top: "\<forall>q\<in>set qs. ?under q \<longrightarrow> q \<le> minQ'"
    and lst: "minQ' = (if \<exists>q\<in>set qs. ?under q then last (filter ?under qs) else fl64 (1 / 100))"
    and len: "length qs = 5"
    and hd: "hd qs = js_divide (js_plus (fl64 (1 / 100)) 1) 2"
    and res: "best' = (if filter ?under qs = [] then None
                       else Some (enc (last (filter ?under qs))))"
    by auto
  have hd': "hd qs = 4548635623644201 / 9007199254740992" using hd first_midpoint by simp
  have rng': "\<forall>q\<in>set qs. ?lo \<le> q \<and> q \<le> 1" using rng unfolding fl64_hundredth .
  have run': "\<exists>minQ' maxQ' bestBlob'.
      search_loop eng mimeType T 0 ?lo 1 None = (Inr (minQ', maxQ', bestBlob'), map ?E qs)"
    using run unfolding fl64_hundredth by blast
  have none: "filter ?under qs = [] \<longleftrightarrow> \<not> (\<exists>q\<in>set qs. ?under q)"
    by (simp add: filter_empty_conv)
  have found: "\<exists>b\<in>set qs. ?under b \<and> b = last (filter ?under qs) \<and>
                 (\<forall>q\<in>set qs. ?under q \<longrightarrow> q \<le> b) \<and>
                 size_search eng mimeType T = (Inr (enc b), ?E 1 # map ?E qs)"
    if "\<not> of_nat (blob_size eng (enc 1)) \<le> T" "\<exists>q\<in>set qs. ?under q"
  proof -
    from res that(2) none have b: "best' = Some (enc (last (filter ?under qs)))" by simp
    from that(2) none have ne: "filter ?under qs \<noteq> []" by simp
    from last_in_set [OF ne] have mem: "last (filter ?under qs) \<in> set qs" "?under (last (filter ?under qs))"
      by simp_all
    from lst that(2) have m: "minQ' = last (filter ?under qs)" by simp
    have s: "size_search eng mimeType T = (Inr (enc (last (filter ?under qs))), ?E 1 # map ?E qs)"
      using that(1) b by (simp add: size_search_def enc run)
    from mem top s show ?thesis unfolding m by blast
  qed
  have fallback: "size_search eng mimeType T = (Inr (enc ?lo), ?E 1 # map ?E qs @ [?E ?lo])"
    if "\<not> of_nat (blob_size eng (enc 1)) \<le> T" "\<not> (\<exists>q\<in>set qs. ?under q)"
  proof -
    from res that(2) none have b: "best' = None" by simp
    have "size_search eng mimeType T =
            (Inr (enc (fl64 (1 / 100))), ?E 1 # map ?E qs @ [?E (fl64 (1 / 100))])"
      using that(1) b by (simp add: size_search_def enc run)
    then show ?thesis unfolding fl64_hundredth .
  qed
  have search: "\<exists>qs. length qs = 5 \<and> hd qs = 4548635623644201 / 9007199254740992 \<and>
          (\<forall>q\<in>set qs. ?lo \<le> q \<and> q \<le> 1) \<and>
          (\<exists>minQ' maxQ' bestBlob'.
             search_loop eng mimeType T 0 ?lo 1 None = (Inr (minQ', maxQ', bestBlob'), map ?E qs)) \<and>
          (if \<exists>q\<in>set qs. ?under q
           then \<exists>b\<in>set qs. ?under b \<and> b = last (filter ?under qs) \<and>
                  (\<forall>q\<in>set qs. ?under q \<longrightarrow> q \<le> b) \<and>
                  size_search eng mimeType T = (Inr (enc b), ?E 1 # map ?E qs)
           else size_search eng mimeType T = (Inr (enc ?lo), ?E 1 # map ?E qs @ [?E ?lo]))"
    if over: "\<not> of_nat (blob_size eng (enc 1)) \<le> T"
  proof (cases "\<exists>q\<in>set qs. ?under q")
    case True
    from found [OF over True] True len hd' rng' run'
    show ?thesis by (intro exI [of _ qs]) (simp only: if_True simp_thms)
  next
    case False
    from fallback [OF over False] False len hd' rng' run'
    show ?thesis by (intro exI [of _ qs]) (simp only: if_False simp_thms)
  qed
  have total: "\<exists>blob. fst (size_search eng mimeType T) = Inr blob"
  proof (cases "of_nat (blob_size eng (enc 1)) \<le> T")
    case True
    from fits [OF this] show ?thesis by simp
  next
    case False
    then show ?thesis
      using found [OF False] fallback [OF False] by (cases "\<exists>q\<in>set qs. ?under q") auto
  qed
  have step: "search_loop eng mimeType T i minQ maxQ bestBlob =
         (let midQ = fl64 (fl64 (minQ + maxQ) / 2);
              rest = (if of_nat (blob_size eng (enc midQ)) < T
                      then search_loop eng mimeType T (i + 1) midQ maxQ (Some (enc midQ))
                      else search_loop eng mimeType T (i + 1) minQ midQ bestBlob)
          in (fst rest, ConvertToBlob mimeType (Some midQ) # snd rest))"
    if "i < 5" for i minQ maxQ bestBlob
    using search_loop_step [where minQ = minQ and maxQ = maxQ and targetBytes = T and bestBlob = bestBlob, OF that enc]
    by (simp add: Let_def js_divide_def js_plus_def)
  have stop: "search_loop eng mimeType T 5 minQ maxQ bestBlob = (Inr (minQ, maxQ, bestBlob), [])"
    for minQ maxQ bestBlob
    by (rule search_loop_done) simp
  have link: "processImage eng f options =
         (map_sum id CanvasBlob (fst (size_search eng mimeType T)),
          CreateImageBitmap 0 # painted options bitmap w h @ snd (size_search eng mimeType T) @
          [BitmapClose 0])"
    if a: "createImageBitmap eng f = Some bitmap \<and>
       targetWidth options = Num (of_int w) \<and> targetHeight options = Num (of_int h) \<and>
       w * h \<le> int MAX_PIXELS \<and> getContext eng w h \<and>
       (format options = JPEG \<or> format options = WEBP) \<and>
       targetSizeKB options = Some kb \<and> kb > 0 \<and>
       mimeType = ''image/'' @ format_name (format options) \<and> T = fl64 (kb * 1024)"
    for f options bitmap kb w h
  proof -
    from a have nn: "opt_width options \<noteq> NaN" "opt_height options \<noteq> NaN"
      using targetWidth_NaN [of options] targetHeight_NaN [of options] by auto
    from targetWidth_range [OF nn(1)] targetHeight_range [OF nn(2)] a
    have rng: "1 \<le> w" "w \<le> 15000" "1 \<le> h" "h \<le> 15000" by auto
    from a have wh: "targetWidth options = Num (of_int w)" "targetHeight options = Num (of_int h)"
      by simp_all
    from a have le: "\<not> w * h > int MAX_PIXELS" by simp
    have pt: "process_try eng f options bitmap = canvas_work eng f options bitmap w h"
      using process_try_Num [OF wh rng, of eng f bitmap] le by simp
    from a have cw: "canvas_work eng f options bitmap w h =
       (map_sum id CanvasBlob (fst (size_search eng mimeType T)),
        painted options bitmap w h @ snd (size_search eng mimeType T))"
      using canvas_work_size_search [of eng w h options kb f bitmap]
      by (simp add: js_multiply_def)
    from a have "createImageBitmap eng f = Some bitmap" by blast
    then show ?thesis by (simp add: processImage_def Let_def pt cw)
  qed
  from fits search total step stop link show ?thesis by blast
qed

lemma eng0_exports: "convertToBlob eng0 m (Some q) = Some (nat \<lfloor>q * 1000\<rfloor>)"
  by (simp add: eng0_def)

lemmas fl64_eval = js_divide_def js_plus_def js_multiply_def fl64_def expo.simps pow2_def
  round_even_def Let_def

lemma eng0_step:
  assumes "i < 5" "js_divide (js_plus minQ maxQ) 2 = mid"
  shows "search_loop eng0 m T i minQ maxQ best =
     (let rest = (if real (nat \<lfloor>mid * 1000\<rfloor>) < T
                  then search_loop eng0 m T (i + 1) mid maxQ (Some (nat \<lfloor>mid * 1000\<rfloor>))
                  else search_loop eng0 m T (i + 1) minQ mid best)
      in (fst rest, ConvertToBlob m (Some mid) # snd rest))"
proof -
  have b: "blob_size eng0 x = x" for x by (simp add: eng0_def)
  from search_loop_step [OF assms(1) eng0_exports, where mimeType = m and minQ = minQ and maxQ = maxQ
      and targetBytes = T and bestBlob = best]
  show ?thesis unfolding assms(2) b .
qed

lemma eng0_600_mid1:
  "js_divide (js_plus (5764607523034235 / 576460752303423488) 1) 2 = 4548635623644201 / 9007199254740992"
  by (simp add: fl64_eval)

lemma eng0_600_mid2:
  "js_divide (js_plus (4548635623644201 / 9007199254740992) 1) 2 = 1694479359798149 / 2251799813685248"
  by (simp add: fl64_eval)

lemma eng0_600_mid3:
  "js_divide (js_plus (4548635623644201 / 9007199254740992) (1694479359798149 / 2251799813685248)) 2 = 2831638265709199 / 4503599627370496"
  by (simp add: fl64_eval)

lemma eng0_600_mid4:
  "js_divide (js_plus (4548635623644201 / 9007199254740992) (2831638265709199 / 4503599627370496)) 2 = 1276489019382825 / 2251799813685248"
  by (simp add: fl64_eval)

lemma eng0_600_mid5:
  "js_divide (js_plus (1276489019382825 / 2251799813685248) (2831638265709199 / 4503599627370496)) 2 = 5384616304474849 / 9007199254740992"
  by (simp add: fl64_eval)

lemma eng0_search_600:
  "search_loop eng0 ''image/jpeg'' 600 0 (5764607523034235 / 576460752303423488) 1 None =
   (Inr (5384616304474849 / 9007199254740992, 2831638265709199 / 4503599627370496, Some 597),
    [ConvertToBlob ''image/jpeg'' (Some (4548635623644201 / 9007199254740992)),
     ConvertToBlob ''image/jpeg'' (Some (1694479359798149 / 2251799813685248)),
     ConvertToBlob ''image/jpeg'' (Some (2831638265709199 / 4503599627370496)),
     ConvertToBlob ''image/jpeg'' (Some (1276489019382825 / 2251799813685248)),
     ConvertToBlob ''image/jpeg'' (Some (5384616304474849 / 9007199254740992))])"
proof -
  have s5: "search_loop eng0 ''image/jpeg'' 600 5 a b c = (Inr (a, b, c), [])" for a b c
    by (rule search_loop_done) simp
  have s4: "search_loop eng0 ''image/jpeg'' 600 4 (1276489019382825 / 2251799813685248) (2831638265709199 / 4503599627370496) (Some 566) =
     (Inr (5384616304474849 / 9007199254740992, 2831638265709199 / 4503599627370496, Some 597),
      [ConvertToBlob ''image/jpeg'' (Some (5384616304474849 / 9007199254740992))])"
    by (subst eng0_step [OF _ eng0_600_mid5]) (simp_all add: s5)
  have s3: "search_loop eng0 ''image/jpeg'' 600 3 (4548635623644201 / 9007199254740992) (2831638265709199 / 4503599627370496) (Some 505) =
     (Inr (5384616304474849 / 9007199254740992, 2831638265709199 / 4503599627370496, Some 597),
      [ConvertToBlob ''image/jpeg'' (Some (1276489019382825 / 2251799813685248)),
       ConvertToBlob ''image/jpeg'' (Some (5384616304474849 / 9007199254740992))])"
    by (subst eng0_step [OF _ eng0_600_mid4]) (simp_all add: s4)
  have s2: "search_loop eng0 ''image/jpeg'' 600 2 (4548635623644201 / 9007199254740992) (1694479359798149 / 2251799813685248) (Some 505) =
     (Inr (5384616304474849 / 9007199254740992, 2831638265709199 / 4503599627370496, Some 597),
      [ConvertToBlob ''image/jpeg'' (Some (2831638265709199 / 4503599627370496)),
       ConvertToBlob ''image/jpeg'' (Some (1276489019382825 / 2251799813685248)),
       ConvertToBlob ''image/jpeg'' (Some (5384616304474849 / 9007199254740992))])"
    by (subst eng0_step [OF _ eng0_600_mid3]) (simp_all add: s3)
  have s1: "search_loop eng0 ''image/jpeg'' 600 1 (4548635623644201 / 9007199254740992) (1) (Some 505) =
     (Inr (5384616304474849 / 9007199254740992, 2831638265709199 / 4503599627370496, Some 597),
      [ConvertToBlob ''image/jpeg'' (Some (1694479359798149 / 2251799813685248)),
       ConvertToBlob ''image/jpeg'' (Some (2831638265709199 / 4503599627370496)),
       ConvertToBlob ''image/jpeg'' (Some (1276489019382825 / 2251799813685248)),
       ConvertToBlob ''image/jpeg'' (Some (5384616304474849 / 9007199254740992))])"
    by (subst eng0_step [OF _ eng0_600_mid2]) (simp_all add: s2 [unfolded numeral_2_eq_2])
  have s0: "search_loop eng0 ''image/jpeg'' 600 0 (5764607523034235 / 576460752303423488) (1) None =
     (Inr (5384616304474849 / 9007199254740992, 2831638265709199 / 4503599627370496, Some 597),
      [ConvertToBlob ''image/jpeg'' (Some (4548635623644201 / 9007199254740992)),
       ConvertToBlob ''image/jpeg'' (Some (1694479359798149 / 2251799813685248)),
       ConvertToBlob ''image/jpeg'' (Some (2831638265709199 / 4503599627370496)),
       ConvertToBlob ''image/jpeg'' (Some (1276489019382825 / 2251799813685248)),
       ConvertToBlob ''image/jpeg'' (Some (5384616304474849 / 9007199254740992))])"
    by (subst eng0_step [OF _ eng0_600_mid1]) (simp_all add: s1 [unfolded One_nat_def])
  from s0 show ?thesis by simp
qed

lemma eng0_0_mid1:
  "js_divide (js_plus (5764607523034235 / 576460752303423488) 1) 2 = 4548635623644201 / 9007199254740992"
  by (simp add: fl64_eval)

lemma eng0_0_mid2:
  "js_divide (js_plus (5764607523034235 / 576460752303423488) (4548635623644201 / 9007199254740992)) 2 = 4638707616191611 / 18014398509481984"
  by (simp add: fl64_eval)

lemma eng0_0_mid3:
  "js_divide (js_plus (5764607523034235 / 576460752303423488) (4638707616191611 / 18014398509481984)) 2 = 4818851601286431 / 36028797018963968"
  by (simp add: fl64_eval)

lemma eng0_0_mid4:
  "js_divide (js_plus (5764607523034235 / 576460752303423488) (4818851601286431 / 36028797018963968)) 2 = 5179139571476071 / 72057594037927936"
  by (simp add: fl64_eval)

lemma eng0_0_mid5:
  "js_divide (js_plus (5764607523034235 / 576460752303423488) (5179139571476071 / 72057594037927936)) 2 = 2949857755927675 / 72057594037927936"
  by (simp add: fl64_eval)

lemma eng0_search_0:
  "search_loop eng0 ''image/jpeg'' 0 0 (5764607523034235 / 576460752303423488) 1 None =
   (Inr (5764607523034235 / 576460752303423488, 2949857755927675 / 72057594037927936, None),
    [ConvertToBlob ''image/jpeg'' (Some (4548635623644201 / 9007199254740992)),
     ConvertToBlob ''image/jpeg'' (Some (4638707616191611 / 18014398509481984)),
     ConvertToBlob ''image/jpeg'' (Some (4818851601286431 / 36028797018963968)),
     ConvertToBlob ''image/jpeg'' (Some (5179139571476071 / 72057594037927936)),
     ConvertToBlob ''image/jpeg'' (Some (2949857755927675 / 72057594037927936))])"
proof -
  have s5: "search_loop eng0 ''image/jpeg'' 0 5 a b c = (Inr (a, b, c), [])" for a b c
    by (rule search_loop_done) simp
  have s4: "search_loop eng0 ''image/jpeg'' 0 4 (5764607523034235 / 576460752303423488) (5179139571476071 / 72057594037927936) None =
     (Inr (5764607523034235 / 576460752303423488, 2949857755927675 / 72057594037927936, None),
      [ConvertToBlob ''image/jpeg'' (Some (2949857755927675 / 72057594037927936))])"
    by (subst eng0_step [OF _ eng0_0_mid5]) (simp_all add: s5)
  have s3: "search_loop eng0 ''image/jpeg'' 0 3 (5764607523034235 / 576460752303423488) (4818851601286431 / 36028797018963968) None =
     (Inr (5764607523034235 / 576460752303423488, 2949857755927675 / 72057594037927936, None),
      [ConvertToBlob ''image/jpeg'' (Some (5179139571476071 / 72057594037927936)),
       ConvertToBlob ''image/jpeg'' (Some (2949857755927675 / 72057594037927936))])"
    by (subst eng0_step [OF _ eng0_0_mid4]) (simp_all add: s4)
  have s2: "search_loop eng0 ''image/jpeg'' 0 2 (5764607523034235 / 576460752303423488) (4638707616191611 / 18014398509481984) None =
     (Inr (5764607523034235 / 576460752303423488, 2949857755927675 / 72057594037927936, None),
      [ConvertToBlob ''image/jpeg'' (Some (4818851601286431 / 36028797018963968)),
       ConvertToBlob ''image/jpeg'' (Some (5179139571476071 / 72057594037927936)),
       ConvertToBlob ''image/jpeg'' (Some (2949857755927675 / 72057594037927936))])"
    by (subst eng0_step [OF _ eng0_0_mid3]) (simp_all add: s3)
  have s1: "search_loop eng0 ''image/jpeg'' 0 1 (5764607523034235 / 576460752303423488) (4548635623644201 / 9007199254740992) None =
     (Inr (5764607523034235 / 576460752303423488, 2949857755927675 / 72057594037927936, None),
      [ConvertToBlob ''image/jpeg'' (Some (4638707616191611 / 18014398509481984)),
       ConvertToBlob ''image/jpeg'' (Some (4818851601286431 / 36028797018963968)),
       ConvertToBlob ''image/jpeg'' (Some (5179139571476071 / 72057594037927936)),
       ConvertToBlob ''image/jpeg'' (Some (2949857755927675 / 72057594037927936))])"
    by (subst eng0_step [OF _ eng0_0_mid2]) (simp_all add: s2 [unfolded numeral_2_eq_2])
  have s0: "search_loop eng0 ''image/jpeg'' 0 0 (5764607523034235 / 576460752303423488) (1) None =
     (Inr (5764607523034235 / 576460752303423488, 2949857755927675 / 72057594037927936, None),
      [ConvertToBlob ''image/jpeg'' (Some (4548635623644201 / 9007199254740992)),
       ConvertToBlob ''image/jpeg'' (Some (4638707616191611 / 18014398509481984)),
       ConvertToBlob ''image/jpeg'' (Some (4818851601286431 / 36028797018963968)),
       ConvertToBlob ''image/jpeg'' (Some (5179139571476071 / 72057594037927936)),
       ConvertToBlob ''image/jpeg'' (Some (2949857755927675 / 72057594037927936))])"
    by (subst eng0_step [OF _ eng0_0_mid1]) (simp_all add: s1 [unfolded One_nat_def])
  from s0 show ?thesis by simp
qed

lemma eng0_size_search_600:
  "size_search eng0 ''image/jpeg'' 600 =
   (Inr 597,
    [ConvertToBlob ''image/jpeg'' (Some 1),
     ConvertToBlob ''image/jpeg'' (Some (4548635623644201 / 9007199254740992)),
     ConvertToBlob ''image/jpeg'' (Some (1694479359798149 / 2251799813685248)),
     ConvertToBlob ''image/jpeg'' (Some (2831638265709199 / 4503599627370496)),
     ConvertToBlob ''image/jpeg'' (Some (1276489019382825 / 2251799813685248)),
     ConvertToBlob ''image/jpeg'' (Some (5384616304474849 / 9007199254740992))])"
  unfolding size_search_def Let_def fl64_hundredth eng0_search_600 by (simp add: eng0_def)

lemma eng0_size_search_0:
  "size_search eng0 ''image/jpeg'' 0 =
   (Inr 10,
    [ConvertToBlob ''image/jpeg'' (Some 1),
     ConvertToBlob ''image/jpeg'' (Some (4548635623644201 / 9007199254740992)),
     ConvertToBlob ''image/jpeg'' (Some (4638707616191611 / 18014398509481984)),
     ConvertToBlob ''image/jpeg'' (Some (4818851601286431 / 36028797018963968)),
     ConvertToBlob ''image/jpeg'' (Some (5179139571476071 / 72057594037927936)),
     ConvertToBlob ''image/jpeg'' (Some (2949857755927675 / 72057594037927936)),
     ConvertToBlob ''image/jpeg'' (Some (5764607523034235 / 576460752303423488))])"
  unfolding size_search_def Let_def fl64_hundredth eng0_search_0 by (simp add: eng0_def)

lemma opts0_dims: "targetWidth opts0 = Num (of_int 500)" "targetHeight opts0 = Num (of_int 500)"
  by (simp_all add: targetWidth_def targetHeight_def clamp_cases opts0_def MAX_WIDTH_def MAX_HEIGHT_def)

theorem size_search_spec_witness:
  "processImage eng0 png_file opts0 =
     (Inr (CanvasBlob 597),
      [CreateImageBitmap 0, NewCanvas 500 500, FillRectWhite 0 0 500 500,
       DrawImageScaled (0, 0, 1000, 1000) (0, 0, 500, 500),
       ConvertToBlob ''image/jpeg'' (Some 1),
       ConvertToBlob ''image/jpeg'' (Some (4548635623644201 / 9007199254740992)),
       ConvertToBlob ''image/jpeg'' (Some (1694479359798149 / 2251799813685248)),
       ConvertToBlob ''image/jpeg'' (Some (2831638265709199 / 4503599627370496)),
       ConvertToBlob ''image/jpeg'' (Some (1276489019382825 / 2251799813685248)),
       ConvertToBlob ''image/jpeg'' (Some (5384616304474849 / 9007199254740992)),
       BitmapClose 0]) \<and>
   size_search eng0 ''image/jpeg'' 0 =
     (Inr 10,
      [ConvertToBlob ''image/jpeg'' (Some 1),
       ConvertToBlob ''image/jpeg'' (Some (4548635623644201 / 9007199254740992)),
       ConvertToBlob ''image/jpeg'' (Some (4638707616191611 / 18014398509481984)),
       ConvertToBlob ''image/jpeg'' (Some (4818851601286431 / 36028797018963968)),
       ConvertToBlob ''image/jpeg'' (Some (5179139571476071 / 72057594037927936)),
       ConvertToBlob ''image/jpeg'' (Some (2949857755927675 / 72057594037927936)),
       ConvertToBlob ''image/jpeg'' (Some (5764607523034235 / 576460752303423488))])"
proof -
  note spec = size_search_spec [of eng0 "''image/jpeg''" "\<lambda>q. nat \<lfloor>q * 1000\<rfloor>", OF eng0_exports]
  have t: "fl64 (600 / 1024 * 1024) = 600" by (simp add: fl64_eval)
  have pre: "createImageBitmap eng0 png_file = Some \<lparr>bm_width = 1000, bm_height = 2000\<rparr> \<and>
       targetWidth opts0 = Num (of_int 500) \<and> targetHeight opts0 = Num (of_int 500) \<and>
       500 * 500 \<le> int MAX_PIXELS \<and> getContext eng0 500 500 \<and>
       (format opts0 = JPEG \<or> format opts0 = WEBP) \<and>
       targetSizeKB opts0 = Some (600 / 1024) \<and> (600 / 1024 :: real) > 0 \<and>
       ''image/jpeg'' = ''image/'' @ format_name (format opts0) \<and>
       (600 :: real) = fl64 (600 / 1024 * 1024)"
    unfolding t by (simp add: opts0_dims MAX_PIXELS_def) (simp add: eng0_def opts0_def)
  have paint: "painted opts0 \<lparr>bm_width = 1000, bm_height = 2000\<rparr> 500 500 =
      [NewCanvas 500 500, FillRectWhite 0 0 500 500,
       DrawImageScaled (0, 0, 1000, 1000) (0, 0, 500, 500)]"
    by (simp add: painted_def source_rect_def) (simp add: opts0_def)
  from spec [of 600] pre
  have "processImage eng0 png_file opts0 =
         (map_sum id CanvasBlob (fst (size_search eng0 ''image/jpeg'' 600)),
          CreateImageBitmap 0 # painted opts0 \<lparr>bm_width = 1000, bm_height = 2000\<rparr> 500 500 @
          snd (size_search eng0 ''image/jpeg'' 600) @ [BitmapClose 0])"
    by blast
  then show ?thesis
    by (simp add: eng0_size_search_600 eng0_size_search_0 paint)
qed

section \<open>Properties of the grid merge\<close>

subsection \<open>The grid\<close>

lemma hd_filter_upt: "\<exists>c<m. P c \<Longrightarrow> hd (filter P [0..<m]) = (LEAST c. P c)"
proof (induction m)
  case 0
  then show ?case by simp
next
  case (Suc m)
  show ?case
  proof (cases "\<exists>c<m. P c")
    case True
    then have "filter P [0..<m] \<noteq> []" by (auto simp: filter_empty_conv)
    with Suc.IH [OF True] show ?thesis by simp
  next
    case False
    then have e: "filter P [0..<m] = []" by (auto simp: filter_empty_conv)
    from False Suc.prems have m: "P m" by (metis less_Suc_eq)
    from False have "(LEAST c. P c) = m"
      by (intro Least_equality m) (meson not_le_imp_less)
    with e m show ?thesis by simp
  qed
qed

lemma ceil_sqrt_Least: "ceil_sqrt n = (LEAST c. n \<le> c * c)"
proof -
  have "n \<le> n * n" by (cases n) auto
  then have "\<exists>c<Suc n. n \<le> c * c" by blast
  then show ?thesis unfolding ceil_sqrt_def by (rule hd_filter_upt)
qed

lemma ceil_sqrt_ge: "n \<le> ceil_sqrt n * ceil_sqrt n"
proof -
  have "n \<le> n * n" by (cases n) auto
  then show ?thesis unfolding ceil_sqrt_Least by (rule LeastI [of "\<lambda>c. n \<le> c * c"])
qed

lemma ceil_sqrt_least: "c < ceil_sqrt n \<Longrightarrow> c * c < n"
  unfolding ceil_sqrt_Least using not_less_Least [of c "\<lambda>c. n \<le> c * c"] by simp

lemma ceil_sqrt_pos: "0 < n \<Longrightarrow> 0 < ceil_sqrt n"
  using ceil_sqrt_ge [of n] by (cases "ceil_sqrt n") auto

lemma ceil_sqrt_eq: "ceil_sqrt n = nat \<lceil>sqrt (real n)\<rceil>"
proof -
  let ?c = "ceil_sqrt n"
  have up: "sqrt (real n) \<le> real ?c"
  proof -
    have "real n \<le> (real ?c)\<^sup>2"
      using ceil_sqrt_ge [of n] by (metis of_nat_le_iff of_nat_mult power2_eq_square)
    then show ?thesis by (intro real_le_lsqrt) simp_all
  qed
  have low: "real ?c - 1 < sqrt (real n)"
  proof (cases ?c)
    case 0
    have "0 \<le> sqrt (real n)" by simp
    with 0 show ?thesis by linarith
  next
    case (Suc d)
    then have "d * d < n" using ceil_sqrt_least [of d n] by simp
    then have "(real d)\<^sup>2 < real n"
      by (metis of_nat_less_iff of_nat_mult power2_eq_square)
    then have "real d < sqrt (real n)" by (rule real_less_rsqrt)
    with Suc show ?thesis by simp
  qed
  have "\<lceil>sqrt (real n)\<rceil> = int ?c"
    by (rule ceiling_unique) (use up low in simp_all)
  then show ?thesis by simp
qed

lemma Math_max_ge: "x \<in> set xs \<Longrightarrow> x \<le> Math_max xs"
  unfolding Math_max_def by (induction xs) auto

lemma Math_max_in: "xs \<noteq> [] \<Longrightarrow> Math_max xs \<in> set xs"
  unfolding Math_max_def
proof (induction xs)
  case Nil
  then show ?case by simp
next
  case (Cons x xs)
  show ?case
  proof (cases "xs = []")
    case True
    then show ?thesis by simp
  next
    case False
    with Cons.IH show ?thesis by (auto simp: max_def)
  qed
qed

lemma Math_max_eq_Max: "xs \<noteq> [] \<Longrightarrow> Math_max xs = Max (set xs)"
  by (intro Max_eqI [symmetric]) (auto simp: Math_max_ge Math_max_in)

lemma decode_loop_eq:
  "decode_loop dec files bitmaps =
     (list_all (\<lambda>f. dec f \<noteq> None) files,
      bitmaps @ map (the \<circ> dec) (takeWhile (\<lambda>f. dec f \<noteq> None) files))"
  by (induction files arbitrary: bitmaps) (auto split: option.splits)

lemma rows_cover:
  assumes "0 < cols"
  shows "n \<le> cols * nat \<lceil>real n / real cols\<rceil>"
proof -
  define k where "k = \<lceil>real n / real cols\<rceil>"
  have nn: "0 \<le> real n / real cols" by simp
  have ub: "real n / real cols \<le> of_int k" unfolding k_def by (rule le_of_int_ceiling)
  from nn ub have "(0::real) \<le> of_int k" by linarith
  then have k0: "0 \<le> k" by simp
  from ub have "real n \<le> of_int k * real cols"
    using assms by (simp add: pos_divide_le_eq)
  also have "of_int k = real (nat k)" using k0 by simp
  finally have "real n \<le> real (nat k * cols)" by simp
  then have "n \<le> nat k * cols" by (simp only: of_nat_le_iff)
  then show ?thesis unfolding k_def by (simp add: mult.commute)
qed

lemma map_zip_upt:
  "map (\<lambda>(index, bmp). g index bmp) (zip [0..<length bs] bs) = map (\<lambda>i. g i (bs ! i)) [0..<length bs]"
  by (rule nth_equalityI) simp_all

lemma decode_loop_all:
  assumes "\<forall>f\<in>set files. dec f \<noteq> None"
  shows "decode_loop dec files [] = (True, map (the \<circ> dec) files)"
proof -
  have "takeWhile (\<lambda>f. dec f \<noteq> None) files = files"
    using assms by (simp add: takeWhile_eq_all_conv)
  moreover have "list_all (\<lambda>f. dec f \<noteq> None) files"
    using assms by (simp add: list_all_iff)
  ultimately show ?thesis unfolding decode_loop_eq by (simp only: append_Nil)
qed

lemma place_eq:
  "place cols maxCellW maxCellH index bmp =
     DrawImageAt index
       (real ((index mod cols) * maxCellW) + (real maxCellW - real (bm_width bmp)) / 2)
       (real ((index div cols) * maxCellH) + (real maxCellH - real (bm_height bmp)) / 2)"
  by (simp add: place_def Let_def)

lemma centred:
  assumes "w \<le> cell"
  shows "real (c * cell) \<le> real (c * cell) + (real cell - real w) / 2 \<and>
         real (c * cell) + (real cell - real w) / 2 + real w \<le> real ((c + 1) * cell) \<and>
         (real (c * cell) + (real cell - real w) / 2) - real (c * cell) =
           real ((c + 1) * cell) - (real (c * cell) + (real cell - real w) / 2 + real w)"
proof -
  have e: "real ((c + 1) * cell) = real (c * cell) + real cell"
    by (simp add: algebra_simps)
  from assms have "real w \<le> real cell" by simp
  then show ?thesis unfolding e by (simp add: field_simps)
qed

text \<open>
  Claim C8. Let the list of N source images be non-empty and let every image decode. Then
  \<^verbatim>\<open>mergeImages\<close> works with \<open>cols = \<lceil>sqrt N\<rceil>\<close> columns and \<open>rows = \<lceil>N / cols\<rceil>\<close> rows,
  which hold all N images, and with a cell as wide as the widest and as high as the highest
  source. When the canvas of \<open>cols * cellW\<close> by \<open>rows * cellH\<close> pixels exceeds
  \<^verbatim>\<open>MAX_PIXELS\<close> it throws before any canvas is allocated. Otherwise (and when the canvas
  answers a context) it allocates exactly that canvas, fills it white, and draws image i at
  the position that centres it in the cell of row \<open>i div cols\<close> and column \<open>i mod cols\<close>:
  the image lies inside its cell with equal margins left and right, and above and below.
  Then it exports once and closes the bitmaps. Four images of 100 by 100 give a canvas of
  200 by 200 with the images at (0,0), (100,0), (0,100) and (100,100).
\<close>

theorem mergeImages_grid:
  assumes ne: "files \<noteq> []" and dec: "\<forall>f\<in>set files. createImageBitmap eng f \<noteq> None"
  shows
    "(let bitmaps = map (the \<circ> createImageBitmap eng) files;
          N = length files;
          cols = nat \<lceil>sqrt (real N)\<rceil>;
          rows = nat \<lceil>real N / real cols\<rceil>;
          cellW = Max (set (map bm_width bitmaps));
          cellH = Max (set (map bm_height bitmaps));
          canvasW = cellW * cols;
          canvasH = cellH * rows;
          decoded = map CreateImageBitmap [0..<N];
          closed = map BitmapClose [0..<N];
          draws = map (\<lambda>i. DrawImageAt i
                    (real ((i mod cols) * cellW) + (real cellW - real (bm_width (bitmaps ! i))) / 2)
                    (real ((i div cols) * cellH) + (real cellH - real (bm_height (bitmaps ! i))) / 2))
                    [0..<N]
      in 0 < cols \<and> N \<le> cols * rows \<and>
         (MAX_PIXELS < canvasW * canvasH \<longrightarrow>
            mergeImages eng files = (Inl (MergedTooLarge canvasW canvasH), decoded @ closed)) \<and>
         (canvasW * canvasH \<le> MAX_PIXELS \<and> getContext eng (int canvasW) (int canvasH) \<longrightarrow>
            snd (mergeImages eng files) =
              decoded @
              [NewCanvas (int canvasW) (int canvasH), FillRectWhite 0 0 (int canvasW) (int canvasH)] @
              draws @ [ConvertToBlob ''image/jpeg'' (Some (9 / 10))] @ closed) \<and>
         (\<forall>i<N. i mod cols < cols \<and> i div cols < rows \<and>
            bm_width (bitmaps ! i) \<le> cellW \<and> bm_height (bitmaps ! i) \<le> cellH \<and>
            (let x = real ((i mod cols) * cellW) + (real cellW - real (bm_width (bitmaps ! i))) / 2;
                 y = real ((i div cols) * cellH) + (real cellH - real (bm_height (bitmaps ! i))) / 2
             in real ((i mod cols) * cellW) \<le> x \<and>
                x + real (bm_width (bitmaps ! i)) \<le> real ((i mod cols + 1) * cellW) \<and>
                x - real ((i mod cols) * cellW) =
                  real ((i mod cols + 1) * cellW) - (x + real (bm_width (bitmaps ! i))) \<and>
                real ((i div cols) * cellH) \<le> y \<and>
                y + real (bm_height (bitmaps ! i)) \<le> real ((i div cols + 1) * cellH) \<and>
                y - real ((i div cols) * cellH) =
                  real ((i div cols + 1) * cellH) - (y + real (bm_height (bitmaps ! i))))))"
proof -
  define bitmaps where "bitmaps = map (the \<circ> createImageBitmap eng) files"
  define N where "N = length files"
  define cols where "cols = nat \<lceil>sqrt (real N)\<rceil>"
  define rows where "rows = nat \<lceil>real N / real cols\<rceil>"
  define cellW where "cellW = Max (set (map bm_width bitmaps))"
  define cellH where "cellH = Max (set (map bm_height bitmaps))"
  define draws where "draws = map (\<lambda>i. DrawImageAt i
                    (real ((i mod cols) * cellW) + (real cellW - real (bm_width (bitmaps ! i))) / 2)
                    (real ((i div cols) * cellH) + (real cellH - real (bm_height (bitmaps ! i))) / 2))
                    [0..<N]"
  have lb: "length bitmaps = N" by (simp add: bitmaps_def N_def)
  have bne: "bitmaps \<noteq> []" using ne by (simp add: bitmaps_def)
  have Npos: "0 < N" using ne by (simp add: N_def)
  have cols: "ceil_sqrt N = cols" by (simp add: cols_def ceil_sqrt_eq)
  have cpos: "0 < cols" using ceil_sqrt_pos [OF Npos] cols by simp
  have cover: "N \<le> cols * rows" unfolding rows_def by (rule rows_cover [OF cpos])
  have mw: "Math_max (map bm_width bitmaps) = cellW"
    unfolding cellW_def using bne by (intro Math_max_eq_Max) simp
  have mh: "Math_max (map bm_height bitmaps) = cellH"
    unfolding cellH_def using bne by (intro Math_max_eq_Max) simp
  have dl: "decode_loop (createImageBitmap eng) files [] = (True, bitmaps)"
    unfolding bitmaps_def by (rule decode_loop_all [OF dec])
  have pl: "map (\<lambda>(index, bmp). place cols cellW cellH index bmp) (zip [0..<length bitmaps] bitmaps) = draws"
    using map_zip_upt [of "place cols cellW cellH" bitmaps]
    by (simp only: draws_def lb place_eq)
  have large: "mergeImages eng files =
      (Inl (MergedTooLarge (cellW * cols) (cellH * rows)),
       map CreateImageBitmap [0..<N] @ map BitmapClose [0..<N])"
    if "MAX_PIXELS < cellW * cols * (cellH * rows)"
    using that ne
    by (simp add: mergeImages_def merge_try_def dl Let_def lb cols mw mh rows_def [symmetric])
  have ok: "snd (mergeImages eng files) =
              map CreateImageBitmap [0..<N] @
              [NewCanvas (int (cellW * cols)) (int (cellH * rows)),
               FillRectWhite 0 0 (int (cellW * cols)) (int (cellH * rows))] @
              draws @ [ConvertToBlob ''image/jpeg'' (Some (9 / 10))] @ map BitmapClose [0..<N]"
    if "cellW * cols * (cellH * rows) \<le> MAX_PIXELS \<and>
        getContext eng (int (cellW * cols)) (int (cellH * rows))"
  proof -
    from that have a: "\<not> MAX_PIXELS < cellW * cols * (cellH * rows)"
      and b: "getContext eng (int (cellW * cols)) (int (cellH * rows))" by auto
    have "merge_try eng files =
      (case convertToBlob eng ''image/jpeg'' (Some (9 / 10)) of
         None \<Rightarrow> Inl ExportError | Some blob \<Rightarrow> Inr blob,
       map CreateImageBitmap [0..<N] @
              [NewCanvas (int (cellW * cols)) (int (cellH * rows)),
               FillRectWhite 0 0 (int (cellW * cols)) (int (cellH * rows))] @
              draws @ [ConvertToBlob ''image/jpeg'' (Some (9 / 10))], bitmaps)"
      unfolding merge_try_def dl Let_def lb cols mw mh rows_def [symmetric] prod.case bool.case
      using a b by (simp add: pl [unfolded lb] split: option.splits)
    then show ?thesis using ne by (simp add: mergeImages_def lb)
  qed
  have cell: "i mod cols < cols \<and> i div cols < rows \<and>
            bm_width (bitmaps ! i) \<le> cellW \<and> bm_height (bitmaps ! i) \<le> cellH" if "i < N" for i
  proof -
    from that cover have "i < rows * cols" by (simp add: mult.commute)
    then have r: "i div cols < rows" by (rule less_mult_imp_div_less)
    from that lb have "bitmaps ! i \<in> set bitmaps" by simp
    then have "bm_width (bitmaps ! i) \<in> set (map bm_width bitmaps)"
      "bm_height (bitmaps ! i) \<in> set (map bm_height bitmaps)" by simp_all
    then have "bm_width (bitmaps ! i) \<le> cellW" "bm_height (bitmaps ! i) \<le> cellH"
      unfolding cellW_def cellH_def by (simp_all only: Max_ge List.finite_set)
    with r cpos show ?thesis by simp
  qed
  have geom: "i mod cols < cols \<and> i div cols < rows \<and>
            bm_width (bitmaps ! i) \<le> cellW \<and> bm_height (bitmaps ! i) \<le> cellH \<and>
            (let x = real ((i mod cols) * cellW) + (real cellW - real (bm_width (bitmaps ! i))) / 2;
                 y = real ((i div cols) * cellH) + (real cellH - real (bm_height (bitmaps ! i))) / 2
             in real ((i mod cols) * cellW) \<le> x \<and>
                x + real (bm_width (bitmaps ! i)) \<le> real ((i mod cols + 1) * cellW) \<and>
                x - real ((i mod cols) * cellW) =
                  real ((i mod cols + 1) * cellW) - (x + real (bm_width (bitmaps ! i))) \<and>
                real ((i div cols) * cellH) \<le> y \<and>
                y + real (bm_height (bitmaps ! i)) \<le> real ((i div cols + 1) * cellH) \<and>
                y - real ((i div cols) * cellH) =
                  real ((i div cols + 1) * cellH) - (y + real (bm_height (bitmaps ! i))))"
    if "i < N" for i
    unfolding Let_def
    using cell [OF that] centred [of "bm_width (bitmaps ! i)" cellW "i mod cols"]
      centred [of "bm_height (bitmaps ! i)" cellH "i div cols"]
    by blast
  show ?thesis
    unfolding Let_def [where s = "map (the \<circ> createImageBitmap eng) files"]
    unfolding bitmaps_def [symmetric] N_def [symmetric]
    unfolding Let_def [where s = bitmaps] Let_def [where s = N]
    unfolding cols_def [symmetric] Let_def [where s = cols]
    unfolding rows_def [symmetric] cellW_def [symmetric] cellH_def [symmetric]
    unfolding Let_def [where s = rows] Let_def [where s = cellW] Let_def [where s = cellH]
      Let_def [where s = "cellW * cols"] Let_def [where s = "cellH * rows"]
      Let_def [where s = "map CreateImageBitmap [0..<N]"] Let_def [where s = "map BitmapClose [0..<N]"]
    unfolding draws_def [symmetric] Let_def [where s = draws]
    using cpos cover large ok geom by blast
qed

theorem mergeImages_grid_witness:
  "snd (mergeImages eng100 [png_file, png_file, png_file, png_file]) =
     [CreateImageBitmap 0, CreateImageBitmap 1, CreateImageBitmap 2, CreateImageBitmap 3,
      NewCanvas 200 200, FillRectWhite 0 0 200 200,
      DrawImageAt 0 0 0, DrawImageAt 1 100 0, DrawImageAt 2 0 100, DrawImageAt 3 100 100,
      ConvertToBlob ''image/jpeg'' (Some (9 / 10)),
      BitmapClose 0, BitmapClose 1, BitmapClose 2, BitmapClose 3]"
proof -
  let ?files = "[png_file, png_file, png_file, png_file]"
  have ne: "?files \<noteq> []" by simp
  have dec: "\<forall>f\<in>set ?files. createImageBitmap eng100 f \<noteq> None" by (simp add: eng100_def)
  have n: "length ?files = 4" by simp
  have bm: "map (the \<circ> createImageBitmap eng100) ?files =
              replicate 4 \<lparr>bm_width = 100, bm_height = 100\<rparr>"
    by (simp add: eng100_def numeral_eq_Suc)
  have cols: "nat \<lceil>sqrt (real 4)\<rceil> = 2" by simp
  have rows: "nat \<lceil>real 4 / real 2\<rceil> = 2" by simp
  have mx: "Max (set (map bm_width (replicate 4 \<lparr>bm_width = 100, bm_height = 100\<rparr>))) = 100"
           "Max (set (map bm_height (replicate 4 \<lparr>bm_width = 100, bm_height = 100\<rparr>))) = 100"
    by simp_all
  have gc: "getContext eng100 a b" for a b by (simp add: eng100_def)
  have up: "[0..<4] = [0, 1, 2, 3]" by (simp add: upt_rec)
  note g = mergeImages_grid [OF ne dec, unfolded Let_def n bm cols rows mx]
  from g have "snd (mergeImages eng100 ?files) =
              map CreateImageBitmap [0..<4] @
              [NewCanvas (int (100 * 2)) (int (100 * 2)), FillRectWhite 0 0 (int (100 * 2)) (int (100 * 2))] @
              map (\<lambda>i. DrawImageAt i
                    (real ((i mod 2) * 100) + (real 100 - real (bm_width (replicate 4 \<lparr>bm_width = 100, bm_height = 100\<rparr> ! i))) / 2)
                    (real ((i div 2) * 100) + (real 100 - real (bm_height (replicate 4 \<lparr>bm_width = 100, bm_height = 100\<rparr> ! i))) / 2))
                    [0..<4] @ [ConvertToBlob ''image/jpeg'' (Some (9 / 10))] @ map BitmapClose [0..<4]"
    using gc by (simp add: MAX_PIXELS_def)
  then show ?thesis unfolding up by simp
qed

subsection \<open>Closing the bitmaps\<close>

lemma merge_try_shape:
  "\<exists>r body bitmaps.
     merge_try eng files = (r, map CreateImageBitmap [0..<length bitmaps] @ body, bitmaps) \<and>
     bitmaps = map (the \<circ> createImageBitmap eng) (takeWhile (\<lambda>f. createImageBitmap eng f \<noteq> None) files) \<and>
     (\<forall>i. CreateImageBitmap i \<notin> set body \<and> BitmapClose i \<notin> set body)"
proof -
  define bitmaps where
    "bitmaps = map (the \<circ> createImageBitmap eng) (takeWhile (\<lambda>f. createImageBitmap eng f \<noteq> None) files)"
  define ok where "ok = list_all (\<lambda>f. createImageBitmap eng f \<noteq> None) files"
  have dl: "decode_loop (createImageBitmap eng) files [] = (ok, bitmaps)"
    by (simp add: decode_loop_eq ok_def bitmaps_def)
  define cols where "cols = ceil_sqrt (length bitmaps)"
  define rows where "rows = nat \<lceil>real (length bitmaps) / real cols\<rceil>"
  define W where "W = Math_max (map bm_width bitmaps) * cols"
  define H where "H = Math_max (map bm_height bitmaps) * rows"
  define draws where "draws = map (\<lambda>(index, bmp).
      place cols (Math_max (map bm_width bitmaps)) (Math_max (map bm_height bitmaps)) index bmp)
      (zip [0..<length bitmaps] bitmaps)"
  have draws: "CreateImageBitmap i \<notin> set draws \<and> BitmapClose i \<notin> set draws" for i
    by (auto simp: draws_def place_eq)
  consider (fail) "\<not> ok" | (large) "ok" "MAX_PIXELS < W * H"
    | (noctx) "ok" "\<not> MAX_PIXELS < W * H" "\<not> getContext eng (int W) (int H)"
    | (paint) "ok" "\<not> MAX_PIXELS < W * H" "getContext eng (int W) (int H)"
    by blast
  then have "\<exists>r body. merge_try eng files = (r, map CreateImageBitmap [0..<length bitmaps] @ body, bitmaps) \<and>
     (\<forall>i. CreateImageBitmap i \<notin> set body \<and> BitmapClose i \<notin> set body)"
  proof cases
    case fail
    then have "merge_try eng files = (Inl DecodeError, map CreateImageBitmap [0..<length bitmaps] @ [], bitmaps)"
      by (simp add: merge_try_def dl)
    then show ?thesis by (intro exI conjI) (assumption, simp)
  next
    case large
    then have okT: "ok = True" by simp
    from large have "merge_try eng files =
       (Inl (MergedTooLarge W H), map CreateImageBitmap [0..<length bitmaps] @ [], bitmaps)"
      unfolding merge_try_def dl okT prod.case bool.case Let_def cols_def [symmetric]
        rows_def [symmetric] W_def [symmetric] H_def [symmetric] by simp
    then show ?thesis by (intro exI conjI) (assumption, simp)
  next
    case noctx
    then have okT: "ok = True" by simp
    from noctx have "merge_try eng files =
       (Inl (Thrown ''Failed to create canvas context''),
        map CreateImageBitmap [0..<length bitmaps] @ [NewCanvas (int W) (int H)], bitmaps)"
      unfolding merge_try_def dl okT prod.case bool.case Let_def cols_def [symmetric]
        rows_def [symmetric] W_def [symmetric] H_def [symmetric] by simp
    then show ?thesis by (intro exI conjI) (assumption, simp)
  next
    case paint
    then have okT: "ok = True" by simp
    from paint have "merge_try eng files =
       (case convertToBlob eng ''image/jpeg'' (Some (9 / 10)) of
          None \<Rightarrow> Inl ExportError | Some blob \<Rightarrow> Inr blob,
        map CreateImageBitmap [0..<length bitmaps] @
          ([NewCanvas (int W) (int H), FillRectWhite 0 0 (int W) (int H)] @ draws @
           [ConvertToBlob ''image/jpeg'' (Some (9 / 10))]), bitmaps)"
      unfolding merge_try_def dl okT prod.case bool.case Let_def cols_def [symmetric]
        rows_def [symmetric] W_def [symmetric] H_def [symmetric] draws_def [symmetric]
      by (simp split: option.splits)
    then show ?thesis using draws by (intro exI conjI) (assumption, simp)
  qed
  then show ?thesis unfolding bitmaps_def [symmetric] by blast
qed

text \<open>
  Claim C9. Every decoded bitmap is closed on every path. In \<^verbatim>\<open>processImage\<close>, for every
  canvas, file and options: when the decode is rejected nothing was decoded and the run has
  no effect; otherwise the effects of the run are the decode, then the body, then the
  closing of the bitmap, once and last, whatever the body did (a result, an exception, the
  BMP branch or the size search). In \<^verbatim>\<open>mergeImages\<close>, for every canvas and list of files:
  the bitmaps decoded are those of the files before the first one that fails to decode, and
  the run ends by closing each of them once, whether the compositing succeeded or threw.
\<close>

theorem bitmaps_always_closed:
  "(case createImageBitmap eng file of
      None \<Rightarrow> snd (processImage eng file options) = []
    | Some bitmap \<Rightarrow>
        (\<exists>body. snd (processImage eng file options) =
                  CreateImageBitmap 0 # body @ [BitmapClose 0] \<and>
                (\<forall>i. CreateImageBitmap i \<notin> set body \<and> BitmapClose i \<notin> set body))) \<and>
   (\<exists>body. snd (mergeImages eng files) =
      map CreateImageBitmap
        [0..<length (takeWhile (\<lambda>f. createImageBitmap eng f \<noteq> None) files)] @ body @
      map BitmapClose
        [0..<length (takeWhile (\<lambda>f. createImageBitmap eng f \<noteq> None) files)] \<and>
      (\<forall>i. CreateImageBitmap i \<notin> set body \<and> BitmapClose i \<notin> set body))"
proof (intro conjI)
  show "case createImageBitmap eng file of
      None \<Rightarrow> snd (processImage eng file options) = []
    | Some bitmap \<Rightarrow>
        (\<exists>body. snd (processImage eng file options) =
                  CreateImageBitmap 0 # body @ [BitmapClose 0] \<and>
                (\<forall>i. CreateImageBitmap i \<notin> set body \<and> BitmapClose i \<notin> set body))"
  proof (cases "createImageBitmap eng file")
    case None
    then show ?thesis by (simp add: processImage_def)
  next
    case (Some bitmap)
    have "\<forall>i. CreateImageBitmap i \<notin> set (snd (process_try eng file options bitmap)) \<and>
              BitmapClose i \<notin> set (snd (process_try eng file options bitmap))"
      using process_try_trace [of _ eng "file" options bitmap] by blast
    with Some show ?thesis
      by (simp add: processImage_def Let_def)
  qed
next
  let ?n = "length (takeWhile (\<lambda>f. createImageBitmap eng f \<noteq> None) files)"
  show "\<exists>body. snd (mergeImages eng files) =
      map CreateImageBitmap [0..<?n] @ body @ map BitmapClose [0..<?n] \<and>
      (\<forall>i. CreateImageBitmap i \<notin> set body \<and> BitmapClose i \<notin> set body)"
  proof (cases "files = []")
    case True
    then show ?thesis by (simp add: mergeImages_def)
  next
    case False
    from merge_try_shape [of eng files] obtain r body bitmaps where
      mt: "merge_try eng files = (r, map CreateImageBitmap [0..<length bitmaps] @ body, bitmaps)"
      and bm: "bitmaps = map (the \<circ> createImageBitmap eng) (takeWhile (\<lambda>f. createImageBitmap eng f \<noteq> None) files)"
      and nb: "\<forall>i. CreateImageBitmap i \<notin> set body \<and> BitmapClose i \<notin> set body"
      by blast
    from bm have l: "length bitmaps = ?n" by simp
    from False mt have "snd (mergeImages eng files) =
        map CreateImageBitmap [0..<?n] @ body @ map BitmapClose [0..<?n]"
      by (simp add: mergeImages_def l)
    with nb show ?thesis by blast
  qed
qed

theorem bitmaps_always_closed_witness:
  "(\<exists>body. snd (processImage eng0 png_file (opts0\<lparr>format := BMP\<rparr>)) =
             CreateImageBitmap 0 # body @ [BitmapClose 0] \<and>
           (\<forall>i. CreateImageBitmap i \<notin> set body \<and> BitmapClose i \<notin> set body)) \<and>
   (\<exists>body. snd (mergeImages eng_fail3
                  [png_file, png_file, png_file\<lparr>ftype := ''text/plain''\<rparr>, png_file]) =
             [CreateImageBitmap 0, CreateImageBitmap 1] @ body @ [BitmapClose 0, BitmapClose 1] \<and>
           (\<forall>i. CreateImageBitmap i \<notin> set body \<and> BitmapClose i \<notin> set body))"
proof -
  have d: "createImageBitmap eng0 png_file = Some \<lparr>bm_width = 1000, bm_height = 2000\<rparr>"
    by (simp add: eng0_def)
  have n: "length (takeWhile (\<lambda>f. createImageBitmap eng_fail3 f \<noteq> None)
             [png_file, png_file, png_file\<lparr>ftype := ''text/plain''\<rparr>, png_file]) = 2"
    by (simp add: eng_fail3_def eng100_def png_file_def)
  have up: "[0..<2] = [0, 1]" by (simp add: upt_rec)
  from bitmaps_always_closed [of eng0 png_file "opts0\<lparr>format := BMP\<rparr>" "[]"]
  have 1: "\<exists>body. snd (processImage eng0 png_file (opts0\<lparr>format := BMP\<rparr>)) =
             CreateImageBitmap 0 # body @ [BitmapClose 0] \<and>
           (\<forall>i. CreateImageBitmap i \<notin> set body \<and> BitmapClose i \<notin> set body)"
    by (simp add: d)
  from bitmaps_always_closed [of eng_fail3 png_file opts0
         "[png_file, png_file, png_file\<lparr>ftype := ''text/plain''\<rparr>, png_file]"]
  have 2: "\<exists>body. snd (mergeImages eng_fail3
                  [png_file, png_file, png_file\<lparr>ftype := ''text/plain''\<rparr>, png_file]) =
             [CreateImageBitmap 0, CreateImageBitmap 1] @ body @ [BitmapClose 0, BitmapClose 1] \<and>
           (\<forall>i. CreateImageBitmap i \<notin> set body \<and> BitmapClose i \<notin> set body)"
    unfolding n up by simp
  from 1 2 show ?thesis by blast
qed

section \<open>Properties of the worker manager\<close>

subsection \<open>Dispatch\<close>

lemma run_job_fields:
  "jobQueue (snd (run_job s j)) = jobQueue s"
  "started (snd (run_job s j)) = started s"
  "fst (run_job s j) = msg_cloneable (job_message j)"
  "activeJobs (snd (run_job s j)) = (if msg_cloneable (job_message j) then activeJobs s else activeJobs s - 1)"
  "posted (snd (run_job s j)) =
     (if msg_cloneable (job_message j)
      then posted s @ [(case worker s of Some w \<Rightarrow> w | None \<Rightarrow> workersCreated s, job_message j)]
      else posted s)"
  "worker (snd (run_job s j)) \<noteq> None"
  by (simp_all add: run_job_def getWorker_def Let_def split: option.splits prod.splits)

lemma processNextJob_idle:
  "\<not> (activeJobs s < MAX_CONCURRENCY \<and> jobQueue s \<noteq> []) \<Longrightarrow> processNextJob s = s"
  by (subst processNextJob.simps) auto

lemma processNextJob_dispatch:
  assumes "activeJobs s < MAX_CONCURRENCY" "jobQueue s = j # q"
  shows "processNextJob s =
    (let s1 = s\<lparr>jobQueue := q, activeJobs := activeJobs s + 1, started := started s @ [j]\<rparr>
     in if msg_cloneable (job_message j) then snd (run_job s1 j)
        else processNextJob (snd (run_job s1 j)))"
  using assms by (subst processNextJob.simps) (simp add: Let_def run_job_fields)

lemma processNextJob_bound:
  "activeJobs s \<le> MAX_CONCURRENCY \<Longrightarrow> activeJobs (processNextJob s) \<le> MAX_CONCURRENCY"
proof (induction s rule: processNextJob.induct)
  case (1 s)
  show ?case
  proof (cases "activeJobs s < MAX_CONCURRENCY \<and> jobQueue s \<noteq> []")
    case False
    with "1.prems" show ?thesis by (simp add: processNextJob_idle)
  next
    case True
    then obtain j q where jq: "jobQueue s = j # q" by (cases "jobQueue s") auto
    let ?s1 = "s\<lparr>jobQueue := tl (jobQueue s), activeJobs := activeJobs s + 1,
                   started := started s @ [hd (jobQueue s)]\<rparr>"
    show ?thesis
    proof (cases "msg_cloneable (job_message j)")
      case c: True
      with True jq show ?thesis
        by (simp add: processNextJob_dispatch [of s j q] Let_def run_job_fields)
    next
      case nc: False
      have "activeJobs (processNextJob (snd (run_job ?s1 (hd (jobQueue s))))) \<le> MAX_CONCURRENCY"
        using "1.prems" nc jq
        by (intro "1.IH" [OF True refl refl refl]) (simp_all add: run_job_fields)
      with True jq nc show ?thesis
        by (simp add: processNextJob_dispatch [of s j q] Let_def)
    qed
  qed
qed

lemma processNextJob_fifo:
  "\<exists>n. started (processNextJob s) = started s @ take n (jobQueue s) \<and>
       jobQueue (processNextJob s) = drop n (jobQueue s) \<and>
       length (posted (processNextJob s)) \<le> length (posted s) + 1"
proof (induction s rule: processNextJob.induct)
  case (1 s)
  show ?case
  proof (cases "activeJobs s < MAX_CONCURRENCY \<and> jobQueue s \<noteq> []")
    case False
    then show ?thesis by (intro exI [of _ 0]) (simp add: processNextJob_idle)
  next
    case True
    then obtain j q where jq: "jobQueue s = j # q" by (cases "jobQueue s") auto
    let ?s1 = "s\<lparr>jobQueue := tl (jobQueue s), activeJobs := activeJobs s + 1,
                   started := started s @ [hd (jobQueue s)]\<rparr>"
    show ?thesis
    proof (cases "msg_cloneable (job_message j)")
      case c: True
      with True jq show ?thesis
        by (intro exI [of _ 1]) (simp add: processNextJob_dispatch [of s j q] Let_def run_job_fields)
    next
      case nc: False
      let ?s2 = "snd (run_job ?s1 (hd (jobQueue s)))"
      from "1.IH" [OF True refl refl refl] nc jq
      obtain n where n: "started (processNextJob ?s2) = started ?s2 @ take n (jobQueue ?s2)"
        "jobQueue (processNextJob ?s2) = drop n (jobQueue ?s2)"
        "length (posted (processNextJob ?s2)) \<le> length (posted ?s2) + 1"
        by (auto simp: run_job_fields)
      have eq: "processNextJob s = processNextJob ?s2"
        using True jq nc by (simp add: processNextJob_dispatch [of s j q] Let_def)
      show ?thesis
        using n nc jq unfolding eq
        by (intro exI [of _ "Suc n"]) (simp add: run_job_fields)
    qed
  qed
qed

lemma processNextJob_order:
  "started (processNextJob s) @ jobQueue (processNextJob s) = started s @ jobQueue s"
  using processNextJob_fifo [of s] by auto

lemma submissions_append: "submissions (xs @ ys) = submissions xs @ submissions ys"
  by (induction xs rule: submissions.induct) auto

lemma onmessage_known:
  assumes "map_of (pendingOperations s) (resp_id r) = Some p"
  shows "\<exists>out. onmessage s r =
     (processNextJob (s\<lparr>pendingOperations := AList.delete (resp_id r) (pendingOperations s),
                         activeJobs := activeJobs s - 1\<rparr>))\<lparr>settled := out\<rparr>"
proof -
  let ?s' = "processNextJob (s\<lparr>pendingOperations := AList.delete (resp_id r) (pendingOperations s),
                         activeJobs := activeJobs s - 1\<rparr>)"
  have "onmessage s r = ?s'\<lparr>settled := settled (onmessage s r)\<rparr>"
    using assms by (simp add: onmessage_def Let_def)
  then show ?thesis by blast
qed

lemma step_bound:
  assumes "activeJobs s \<le> MAX_CONCURRENCY"
  shows "activeJobs (step s ev) \<le> MAX_CONCURRENCY"
proof (cases ev)
  case (Submit m p)
  with assms show ?thesis by (simp add: enqueueJob_def processNextJob_bound)
next
  case (Message r)
  show ?thesis
  proof (cases "map_of (pendingOperations s) (resp_id r)")
    case None
    with Message assms show ?thesis by (simp add: onmessage_def)
  next
    case (Some p)
    from onmessage_known [OF Some] obtain out where
      "onmessage s r =
         (processNextJob (s\<lparr>pendingOperations := AList.delete (resp_id r) (pendingOperations s),
                         activeJobs := activeJobs s - 1\<rparr>))\<lparr>settled := out\<rparr>" by blast
    moreover have "activeJobs (processNextJob (s\<lparr>pendingOperations := AList.delete (resp_id r) (pendingOperations s),
                         activeJobs := activeJobs s - 1\<rparr>)) \<le> MAX_CONCURRENCY"
      using assms by (intro processNextJob_bound) simp
    ultimately show ?thesis using Message assms by simp
  qed
next
  case WorkerError
  with assms show ?thesis by (simp add: onerror_def MAX_CONCURRENCY_def)
next
  case Terminate
  with assms show ?thesis by (simp add: terminateWorker_def MAX_CONCURRENCY_def)
qed

lemma run_snoc: "run (evs @ [ev]) s = step (run evs s) ev"
  by (simp add: run_def)

lemma run_bound: "activeJobs (run evs initial) \<le> MAX_CONCURRENCY"
proof (induction evs rule: rev_induct)
  case Nil
  show ?case by (simp add: run_def initial_def MAX_CONCURRENCY_def)
next
  case (snoc ev evs)
  then show ?case unfolding run_snoc by (rule step_bound)
qed

lemma step_order:
  assumes "ev \<noteq> WorkerError" "ev \<noteq> Terminate"
  shows "started (step s ev) @ jobQueue (step s ev) = started s @ jobQueue s @ submissions [ev]"
proof (cases ev)
  case (Submit m p)
  then show ?thesis by (simp add: enqueueJob_def processNextJob_order)
next
  case (Message r)
  show ?thesis
  proof (cases "map_of (pendingOperations s) (resp_id r)")
    case None
    with Message show ?thesis by (simp add: onmessage_def)
  next
    case (Some p)
    from onmessage_known [OF Some] obtain out where
      "onmessage s r =
         (processNextJob (s\<lparr>pendingOperations := AList.delete (resp_id r) (pendingOperations s),
                         activeJobs := activeJobs s - 1\<rparr>))\<lparr>settled := out\<rparr>" by blast
    with Message show ?thesis by (simp add: processNextJob_order)
  qed
qed (use assms in simp_all)

lemma run_order:
  "WorkerError \<notin> set evs \<Longrightarrow> Terminate \<notin> set evs \<Longrightarrow>
   started (run evs initial) @ jobQueue (run evs initial) = submissions evs"
proof (induction evs rule: rev_induct)
  case Nil
  show ?case by (simp add: run_def initial_def)
next
  case (snoc ev evs)
  then have ne: "ev \<noteq> WorkerError" "ev \<noteq> Terminate" by auto
  from snoc have "started (run evs initial) @ jobQueue (run evs initial) = submissions evs"
    by simp
  then show ?case
    unfolding run_snoc by (simp add: step_order [OF ne] submissions_append)
qed

lemma run_five:
  "run five initial =
     \<lparr>activeJobs = 2,
      jobQueue = [\<lparr>job_message = msg ''c'', job_promise = 2\<rparr>,
                  \<lparr>job_message = msg ''d'', job_promise = 3\<rparr>,
                  \<lparr>job_message = msg ''e'', job_promise = 4\<rparr>],
      worker = Some 0,
      pendingOperations = [(''a'', 0), (''b'', 1)],
      workersCreated = 1,
      started = [\<lparr>job_message = msg ''a'', job_promise = 0\<rparr>,
                 \<lparr>job_message = msg ''b'', job_promise = 1\<rparr>],
      posted = [(0, msg ''a''), (0, msg ''b'')],
      settled = []\<rparr>"
  by (simp add: five_def run_def initial_def enqueueJob_def processNextJob.simps run_job_def
        getWorker_def Let_def msg_def MAX_CONCURRENCY_def)

text \<open>
  Claim C1. After every sequence of submissions, responses, worker errors and terminations,
  \<^verbatim>\<open>activeJobs\<close> is at most 2. As long as no worker error or termination empties the
  queue, the jobs started so far followed by the jobs still queued are the submitted jobs in
  the order of their submission: the queue is first in, first out. A request submitted while
  both slots are busy is appended to the queue and nothing else happens. When the live worker
  answers a pending request, with a success or with an error, the slot is freed; with an
  empty queue \<^verbatim>\<open>activeJobs\<close> goes down by one and nothing starts, and with a queue whose
  oldest job can be posted exactly that job is started and posted to the worker, so that
  \<^verbatim>\<open>activeJobs\<close> is as before. In every case the jobs started by the answer are a prefix
  of the queue, in order, and at most one message is posted (a job whose \<^verbatim>\<open>postMessage\<close>
  throws is rejected and the dispatch goes on with the next one).
\<close>

theorem scheduler_concurrency:
  "activeJobs (run evs initial) \<le> 2 \<and>
   (WorkerError \<notin> set evs \<and> Terminate \<notin> set evs \<longrightarrow>
      started (run evs initial) @ jobQueue (run evs initial) = submissions evs) \<and>
   (\<forall>m p. activeJobs (run evs initial) = 2 \<longrightarrow>
      step (run evs initial) (Submit m p) =
        (run evs initial)\<lparr>jobQueue := jobQueue (run evs initial) @
                                         [\<lparr>job_message = m, job_promise = p\<rparr>]\<rparr>) \<and>
   (\<forall>r w p. worker (run evs initial) = Some w \<and>
            map_of (pendingOperations (run evs initial)) (resp_id r) = Some p \<longrightarrow>
      (let s = run evs initial; s' = step s (Message r) in
         (jobQueue s = [] \<longrightarrow>
            activeJobs s' = activeJobs s - 1 \<and> started s' = started s \<and> posted s' = posted s) \<and>
         (\<forall>j q. jobQueue s = j # q \<and> msg_cloneable (job_message j) \<longrightarrow>
            activeJobs s' = activeJobs s \<and> jobQueue s' = q \<and>
            started s' = started s @ [j] \<and> posted s' = posted s @ [(w, job_message j)]) \<and>
         (\<exists>n. started s' = started s @ take n (jobQueue s) \<and>
              jobQueue s' = drop n (jobQueue s) \<and>
              length (posted s') \<le> length (posted s) + 1)))"
proof -
  define s where "s = run evs initial"
  have bound: "activeJobs s \<le> 2"
    using run_bound [of evs] by (simp add: s_def MAX_CONCURRENCY_def)
  have order: "started s @ jobQueue s = submissions evs"
    if "WorkerError \<notin> set evs \<and> Terminate \<notin> set evs"
    using that run_order [of evs] by (simp add: s_def)
  have busy: "step s (Submit m p) = s\<lparr>jobQueue := jobQueue s @ [\<lparr>job_message = m, job_promise = p\<rparr>]\<rparr>"
    if "activeJobs s = 2" for m p
    using that by (simp add: enqueueJob_def processNextJob_idle MAX_CONCURRENCY_def)
  have completion:
    "(jobQueue s = [] \<longrightarrow>
        activeJobs (step s (Message r)) = activeJobs s - 1 \<and>
        started (step s (Message r)) = started s \<and> posted (step s (Message r)) = posted s) \<and>
     (\<forall>j q. jobQueue s = j # q \<and> msg_cloneable (job_message j) \<longrightarrow>
        activeJobs (step s (Message r)) = activeJobs s \<and> jobQueue (step s (Message r)) = q \<and>
        started (step s (Message r)) = started s @ [j] \<and>
        posted (step s (Message r)) = posted s @ [(w, job_message j)]) \<and>
     (\<exists>n. started (step s (Message r)) = started s @ take n (jobQueue s) \<and>
          jobQueue (step s (Message r)) = drop n (jobQueue s) \<and>
          length (posted (step s (Message r))) \<le> length (posted s) + 1)"
    if w: "worker s = Some w" and p: "map_of (pendingOperations s) (resp_id r) = Some p" for r w p
  proof -
    let ?s0 = "s\<lparr>pendingOperations := AList.delete (resp_id r) (pendingOperations s),
                  activeJobs := activeJobs s - 1\<rparr>"
    from onmessage_known [OF p] obtain out where
      om: "onmessage s r = (processNextJob ?s0)\<lparr>settled := out\<rparr>" by blast
    have st: "step s (Message r) = (processNextJob ?s0)\<lparr>settled := out\<rparr>"
      using w om by simp
    have free: "activeJobs ?s0 < MAX_CONCURRENCY"
      using bound by (simp add: MAX_CONCURRENCY_def)
    have empty: "activeJobs (step s (Message r)) = activeJobs s - 1 \<and>
        started (step s (Message r)) = started s \<and> posted (step s (Message r)) = posted s"
      if "jobQueue s = []"
      using that unfolding st by (simp add: processNextJob_idle)
    have one: "activeJobs (step s (Message r)) = activeJobs s \<and> jobQueue (step s (Message r)) = q \<and>
        started (step s (Message r)) = started s @ [j] \<and>
        posted (step s (Message r)) = posted s @ [(w, job_message j)]"
      if "jobQueue s = j # q \<and> msg_cloneable (job_message j)" for j q
    proof -
      from that have jq: "jobQueue ?s0 = j # q" and c: "msg_cloneable (job_message j)" by simp_all
      show ?thesis
        unfolding st processNextJob_dispatch [OF free jq] Let_def
        using c w by (simp add: run_job_fields)
    qed
    from processNextJob_fifo [of ?s0]
    have fifo: "\<exists>n. started (step s (Message r)) = started s @ take n (jobQueue s) \<and>
          jobQueue (step s (Message r)) = drop n (jobQueue s) \<and>
          length (posted (step s (Message r))) \<le> length (posted s) + 1"
      unfolding st by simp
    from empty one fifo show ?thesis by blast
  qed
  from bound order busy completion show ?thesis
    unfolding s_def [symmetric] Let_def by blast
qed

theorem scheduler_concurrency_witness:
  "activeJobs (run five initial) = 2 \<and>
   started (run five initial) =
     [\<lparr>job_message = msg ''a'', job_promise = 0\<rparr>, \<lparr>job_message = msg ''b'', job_promise = 1\<rparr>] \<and>
   jobQueue (run five initial) =
     [\<lparr>job_message = msg ''c'', job_promise = 2\<rparr>, \<lparr>job_message = msg ''d'', job_promise = 3\<rparr>,
      \<lparr>job_message = msg ''e'', job_promise = 4\<rparr>] \<and>
   activeJobs (run (five @ [Message (done_ok ''a'')]) initial) = 2 \<and>
   started (run (five @ [Message (done_ok ''a'')]) initial) =
     [\<lparr>job_message = msg ''a'', job_promise = 0\<rparr>, \<lparr>job_message = msg ''b'', job_promise = 1\<rparr>,
      \<lparr>job_message = msg ''c'', job_promise = 2\<rparr>] \<and>
   jobQueue (run (five @ [Message (done_ok ''a'')]) initial) =
     [\<lparr>job_message = msg ''d'', job_promise = 3\<rparr>, \<lparr>job_message = msg ''e'', job_promise = 4\<rparr>] \<and>
   posted (run (five @ [Message (done_ok ''a'')]) initial) =
     [(0, msg ''a''), (0, msg ''b''), (0, msg ''c'')]"
proof -
  have pre: "worker (run five initial) = Some 0 \<and>
     map_of (pendingOperations (run five initial)) (resp_id (done_ok ''a'')) = Some 0"
    by (simp add: run_five done_ok_def)
  have q: "jobQueue (run five initial) =
      \<lparr>job_message = msg ''c'', job_promise = 2\<rparr> #
      [\<lparr>job_message = msg ''d'', job_promise = 3\<rparr>, \<lparr>job_message = msg ''e'', job_promise = 4\<rparr>] \<and>
      msg_cloneable (job_message \<lparr>job_message = msg ''c'', job_promise = 2\<rparr>)"
    by (simp add: run_five msg_def)
  from scheduler_concurrency [of five] pre q
  have "activeJobs (step (run five initial) (Message (done_ok ''a''))) = activeJobs (run five initial) \<and>
        jobQueue (step (run five initial) (Message (done_ok ''a''))) =
          [\<lparr>job_message = msg ''d'', job_promise = 3\<rparr>, \<lparr>job_message = msg ''e'', job_promise = 4\<rparr>] \<and>
        started (step (run five initial) (Message (done_ok ''a''))) =
          started (run five initial) @ [\<lparr>job_message = msg ''c'', job_promise = 2\<rparr>] \<and>
        posted (step (run five initial) (Message (done_ok ''a''))) =
          posted (run five initial) @ [(0, job_message \<lparr>job_message = msg ''c'', job_promise = 2\<rparr>)]"
    unfolding Let_def by blast
  then show ?thesis
    unfolding run_snoc by (simp add: run_five)
qed

subsection \<open>The worker error\<close>

lemma run_three:
  "run three initial =
     \<lparr>activeJobs = 2,
      jobQueue = [\<lparr>job_message = msg ''c'', job_promise = 2\<rparr>],
      worker = Some 0,
      pendingOperations = [(''a'', 0), (''b'', 1)],
      workersCreated = 1,
      started = [\<lparr>job_message = msg ''a'', job_promise = 0\<rparr>,
                 \<lparr>job_message = msg ''b'', job_promise = 1\<rparr>],
      posted = [(0, msg ''a''), (0, msg ''b'')],
      settled = []\<rparr>"
  by (simp add: three_def run_def initial_def enqueueJob_def processNextJob.simps run_job_def
        getWorker_def Let_def msg_def MAX_CONCURRENCY_def)

lemma run_append: "run (xs @ ys) s = run ys (run xs s)"
  by (simp add: run_def)

lemma snd_set_update: "snd ` set (AList.update k v al) \<subseteq> insert v (snd ` set al)"
  by (induction al) auto

lemma snd_set_delete: "snd ` set (AList.delete k al) \<subseteq> snd ` set al"
  by (induction al) auto

lemma promises_run_job:
  "promises (snd (run_job s j)) \<subseteq> insert (job_promise j) (promises s)"
  using snd_set_update [of "msg_id (job_message j)" "job_promise j" "pendingOperations s"]
  by (auto simp: promises_def run_job_def getWorker_def Let_def split: option.splits prod.splits)

lemma promises_processNextJob: "promises (processNextJob s) \<subseteq> promises s"
proof (induction s rule: processNextJob.induct)
  case (1 s)
  show ?case
  proof (cases "activeJobs s < MAX_CONCURRENCY \<and> jobQueue s \<noteq> []")
    case False
    then show ?thesis by (simp add: processNextJob_idle)
  next
    case True
    then obtain j q where jq: "jobQueue s = j # q" by (cases "jobQueue s") auto
    let ?s1 = "s\<lparr>jobQueue := tl (jobQueue s), activeJobs := activeJobs s + 1,
                   started := started s @ [hd (jobQueue s)]\<rparr>"
    have s1: "insert (job_promise j) (promises ?s1) \<subseteq> promises s"
      using jq by (auto simp: promises_def)
    have rj: "promises (snd (run_job ?s1 j)) \<subseteq> promises s"
      using promises_run_job [of ?s1 j] s1 by blast
    show ?thesis
    proof (cases "msg_cloneable (job_message j)")
      case c: True
      with True jq rj show ?thesis
        by (simp add: processNextJob_dispatch [of s j q] Let_def)
    next
      case nc: False
      have "promises (processNextJob (snd (run_job ?s1 (hd (jobQueue s)))))
              \<subseteq> promises (snd (run_job ?s1 (hd (jobQueue s))))"
        using nc jq by (intro "1.IH" [OF True refl refl refl]) (simp add: run_job_fields)
      with True jq nc rj show ?thesis
        by (simp add: processNextJob_dispatch [of s j q] Let_def)
    qed
  qed
qed

lemma promises_step:
  "promises (step s ev) \<subseteq> promises s \<union> (case ev of Submit m p \<Rightarrow> {p} | _ \<Rightarrow> {})"
proof (cases ev)
  case (Submit m p)
  have "promises (s\<lparr>jobQueue := jobQueue s @ [\<lparr>job_message = m, job_promise = p\<rparr>]\<rparr>)
          \<subseteq> promises s \<union> {p}"
    by (auto simp: promises_def)
  with promises_processNextJob
    [of "s\<lparr>jobQueue := jobQueue s @ [\<lparr>job_message = m, job_promise = p\<rparr>]\<rparr>"] Submit
  show ?thesis by (simp add: enqueueJob_def)
next
  case (Message r)
  show ?thesis
  proof (cases "map_of (pendingOperations s) (resp_id r)")
    case None
    with Message show ?thesis by (simp add: onmessage_def)
  next
    case (Some p)
    let ?s0 = "s\<lparr>pendingOperations := AList.delete (resp_id r) (pendingOperations s),
                  activeJobs := activeJobs s - 1\<rparr>"
    from Some have "(resp_id r, p) \<in> set (pendingOperations s)" by (rule map_of_SomeD)
    then have "p \<in> snd ` set (pendingOperations s)" by force
    then have pin: "p \<in> promises s" by (simp add: promises_def)
    have s0: "promises ?s0 \<subseteq> promises s"
      using snd_set_delete [of "resp_id r" "pendingOperations s"] by (auto simp: promises_def)
    with promises_processNextJob [of ?s0] have pn: "promises (processNextJob ?s0) \<subseteq> promises s"
      by blast
    have add: "promises (x\<lparr>settled := settled x @ [(p, y)]\<rparr>) = insert p (promises x)" for x y
      by (auto simp: promises_def)
    have "promises (onmessage s r) \<subseteq> promises s"
      using Some pn pin unfolding onmessage_def Let_def
      by (simp add: add)
    with Message show ?thesis by auto
  qed
next
  case WorkerError
  have "fst ` set (map (\<lambda>(k, pending). (pending, x)) al) = snd ` set al" for x :: settlement
    and al :: "(string \<times> nat) list"
    by (induction al) auto
  then have "promises (onerror s) \<subseteq> promises s"
    by (simp add: onerror_def promises_def image_Un) blast
  with WorkerError show ?thesis by auto
next
  case Terminate
  then show ?thesis by (auto simp: terminateWorker_def promises_def)
qed

lemma promises_run:
  "promises (run evs s) \<subseteq> promises s \<union> {p. \<exists>m. Submit m p \<in> set evs}"
proof (induction evs rule: rev_induct)
  case Nil
  show ?case by (simp add: run_def)
next
  case (snoc ev evs)
  have "promises (step (run evs s) ev) \<subseteq>
          promises (run evs s) \<union> (case ev of Submit m p \<Rightarrow> {p} | _ \<Rightarrow> {})"
    by (rule promises_step)
  also have "\<dots> \<subseteq> promises s \<union> {p. \<exists>m. Submit m p \<in> set (evs @ [ev])}"
    using snoc by (auto split: event.splits)
  finally show ?case unfolding run_snoc .
qed

lemma crashed_state:
  "run (three @ [WorkerError]) initial =
     \<lparr>activeJobs = 0, jobQueue = [], worker = None, pendingOperations = [],
      workersCreated = 1,
      started = [\<lparr>job_message = msg ''a'', job_promise = 0\<rparr>,
                 \<lparr>job_message = msg ''b'', job_promise = 1\<rparr>],
      posted = [(0, msg ''a''), (0, msg ''b'')],
      settled = [(0, Reject ''Worker crashed''), (1, Reject ''Worker crashed'')]\<rparr>"
  unfolding run_snoc run_three by (simp add: onerror_def)

text \<open>
  Claim C2, on the code. Three requests are submitted and the worker fails before any of
  them completes. \<^verbatim>\<open>worker.onerror\<close> rejects the two promises of
  \<^verbatim>\<open>pendingOperations\<close> with the same error text and resets the slot count, the queue,
  the pending map and the worker. The third request was waiting in \<^verbatim>\<open>jobQueue\<close>, which
  holds the only reference to its promise: the queue is emptied and the promise is not
  rejected.
\<close>

theorem worker_crash_drops_queued:
  "settled (run (three @ [WorkerError]) initial) =
     [(0, Reject ''Worker crashed''), (1, Reject ''Worker crashed'')] \<and>
   jobQueue (run (three @ [WorkerError]) initial) = [] \<and>
   pendingOperations (run (three @ [WorkerError]) initial) = [] \<and>
   activeJobs (run (three @ [WorkerError]) initial) = 0 \<and>
   worker (run (three @ [WorkerError]) initial) = None"
  by (simp add: crashed_state)

text \<open>
  After that crash no later event settles the promise of the third request: it stays
  pending for ever.
\<close>

lemma crashed_promises: "promises (run (three @ [WorkerError]) initial) = {0, 1}"
  by (simp add: crashed_state promises_def)

lemma queued_promise_never_settles:
  assumes "\<forall>m. Submit m 2 \<notin> set evs"
  shows "2 \<notin> fst ` set (settled (run (three @ [WorkerError] @ evs) initial))"
proof -
  have "promises (run evs (run (three @ [WorkerError]) initial))
          \<subseteq> {0, 1} \<union> {p. \<exists>m. Submit m p \<in> set evs}"
    using promises_run [of evs "run (three @ [WorkerError]) initial"]
    unfolding crashed_promises .
  moreover have "2 \<notin> {0, 1 :: nat} \<union> {p. \<exists>m. Submit m p \<in> set evs}"
    using assms by simp
  ultimately have "2 \<notin> promises (run evs (run (three @ [WorkerError]) initial))" by blast
  moreover have "run (three @ [WorkerError] @ evs) initial = run evs (run (three @ [WorkerError]) initial)"
    using run_append [of "three @ [WorkerError]" evs initial] by simp
  ultimately show ?thesis by (simp add: promises_def)
qed

text \<open>
  What \<^verbatim>\<open>worker.onerror\<close> does in every state: it rejects the promises of the pending
  map, all with the same text, and resets the bookkeeping; the next submission constructs a
  new worker and posts to it.
\<close>

lemma onerror_resets:
  "settled (onerror s) =
     settled s @ map (\<lambda>(k, pending). (pending, Reject ''Worker crashed'')) (pendingOperations s) \<and>
   activeJobs (onerror s) = 0 \<and> jobQueue (onerror s) = [] \<and> pendingOperations (onerror s) = [] \<and>
   worker (onerror s) = None \<and>
   (msg_cloneable m \<longrightarrow>
      worker (step (onerror s) (Submit m p)) = Some (workersCreated s) \<and>
      workersCreated (step (onerror s) (Submit m p)) = workersCreated s + 1 \<and>
      posted (step (onerror s) (Submit m p)) = posted s @ [(workersCreated s, m)])"
  by (simp add: onerror_def enqueueJob_def MAX_CONCURRENCY_def
        processNextJob_dispatch [where q = "[]"] Let_def run_job_fields)
     (simp add: run_job_def getWorker_def)

end
